theory Spec2Isabelle
  imports Main "HOL-Library.Word"
begin

unbundle bit_operations_syntax

section \<open>Go values used by lexer.go\<close>

text \<open>
  A \<open>byte\<close> is an 8-bit word and a \<open>rune\<close> a 32-bit word. Go's \<open>int\<close> is modelled by
  \<open>int\<close>: every property below concerns offsets and lengths of buffers that fit in memory,
  far from the 64-bit bounds. A run-time panic of the Go program is a value of type
  \<open>panic\<close>; a function that can panic returns \<open>panic + result\<close>.
\<close>

type_synonym byte = "8 word"
type_synonym rune = "32 word"

datatype panic = IndexOutOfRange | SliceOutOfRange | MakeCapOutOfRange | Diverged

text \<open>The values of Go's \<open>error\<close> interface seen by the lexer: \<open>io.EOF\<close> or any other
  error of the source (numbered). \<open>nil\<close> is \<open>None\<close> of \<open>error option\<close>.\<close>

datatype error = EOF | SourceError nat

text \<open>
  A slice \<open>[]byte\<close> whose base is the base of its backing array: \<open>arr\<close> is the backing
  array (so the capacity is its length) and \<open>len\<close> the slice's length. All slices that
  lexer.go keeps in its structures have this shape (\<open>make([]byte, 0, size)\<close>,
  \<open>buf[:n]\<close>). Bytes of \<open>arr\<close> beyond \<open>len\<close> are the stale contents Go keeps there.
\<close>

record slice =
  arr :: "byte list"
  len :: nat

definition cap :: "slice \<Rightarrow> nat" where
  "cap s = length (arr s)"

definition bytes :: "slice \<Rightarrow> byte list" where
  "bytes s = take (len s) (arr s)"

definition make_bytes :: "int \<Rightarrow> slice" where
  "make_bytes sz = \<lparr>arr = replicate (nat sz) 0, len = 0\<rparr>"

section \<open>BufferPool\<close>

text \<open>
  \<open>nxt\<close> is the field \<open>next\<close> of the source. \<open>nxt\<close>, \<open>head\<close> and \<open>tail\<close> are
  "index in pool plus one", 0 meaning none; the source only ever stores 0 or an index plus
  one in them, so they are natural numbers here.
\<close>

record block =
  buf :: slice
  nxt :: nat
  active :: bool

record BufferPool =
  pool :: "block list"
  head :: nat
  tail :: nat
  pos :: int

definition new_pool :: BufferPool where
  "new_pool = \<lparr>pool = [], head = 0, tail = 0, pos = 0\<rparr>"

text \<open>The search loop of \<open>swap\<close>: the first index \<open>i\<close> whose block is inactive and has
  capacity at least \<open>sz\<close> (the argument \<open>size\<close>).\<close>

fun find_swap :: "block list \<Rightarrow> int \<Rightarrow> nat \<Rightarrow> nat option" where
  "find_swap [] sz i = None"
| "find_swap (b # bs) sz i =
     (if \<not> active b \<and> sz \<le> int (cap (buf b)) then Some i
      else find_swap bs sz (Suc i))"

text \<open>Lines 38 to 50 of \<open>swap\<close>: take the buffer of block \<open>sw\<close>, put the retired buffer
  there and append that block at the head of the chain.\<close>

definition intern :: "BufferPool \<Rightarrow> nat \<Rightarrow> slice \<Rightarrow> panic + (BufferPool \<times> slice)" where
  "intern z sw oldBuf =
     (if \<not> sw < length (pool z) then Inl IndexOutOfRange
      else
        let newBuf = buf (pool z ! sw);
            p1 = (pool z)[sw := \<lparr>buf = oldBuf, nxt = 0, active = True\<rparr>]
        in if head z \<noteq> 0 \<and> \<not> head z - 1 < length p1 then Inl IndexOutOfRange
           else
             let p2 = (if head z \<noteq> 0
                       then p1[head z - 1 := (p1 ! (head z - 1))\<lparr>nxt := sw + 1\<rparr>]
                       else p1)
             in Inr (z\<lparr>pool := p2, head := sw + 1,
                       tail := (if tail z = 0 then sw + 1 else tail z)\<rparr>,
                     newBuf\<lparr>len := 0\<rparr>))"

definition swap :: "BufferPool \<Rightarrow> slice \<Rightarrow> int \<Rightarrow> panic + (BufferPool \<times> slice)" where
  "swap z oldBuf sz =
     (case find_swap (pool z) sz 0 of
        Some i \<Rightarrow> intern z i oldBuf
      | None \<Rightarrow>
          if tail z = 0 \<and> pos z \<ge> int (len oldBuf) \<and> sz \<le> int (cap oldBuf)
          then Inr (z\<lparr>pos := pos z - int (len oldBuf)\<rparr>, oldBuf\<lparr>len := 0\<rparr>)
          else if sz < 0 then Inl MakeCapOutOfRange
          else intern (z\<lparr>pool := pool z @ [\<lparr>buf = make_bytes sz, nxt = 0, active = True\<rparr>]\<rparr>)
                      (length (pool z)) oldBuf)"

text \<open>The loop of \<open>free\<close>. It need not terminate on an arbitrary pool (a cycle of
  empty blocks), so it is a partial function: \<open>None\<close> means that it runs forever.\<close>

partial_function (option) free_loop :: "BufferPool \<Rightarrow> (panic + BufferPool) option" where
  "free_loop z =
     (if tail z = 0 then Some (Inr z)
      else if \<not> tail z - 1 < length (pool z) then Some (Inl IndexOutOfRange)
      else
        let b = pool z ! (tail z - 1)
        in if pos z \<ge> int (len (buf b))
           then free_loop (z\<lparr>pos := pos z - int (len (buf b)),
                             pool := (pool z)[tail z - 1 := b\<lparr>active := False\<rparr>],
                             tail := nxt b\<rparr>)
           else Some (Inr z))"

declare free_loop.simps [code]

definition free :: "BufferPool \<Rightarrow> int \<Rightarrow> (panic + BufferPool) option" where
  "free z n =
     (case free_loop (z\<lparr>pos := pos z + n\<rparr>) of
        None \<Rightarrow> None
      | Some (Inl e) \<Rightarrow> Some (Inl e)
      | Some (Inr z') \<Rightarrow> Some (Inr (if tail z' = 0 then z'\<lparr>head := 0\<rparr> else z')))"

subsection \<open>The chain of a pool\<close>

text \<open>The indices of the blocks met by following \<open>nxt\<close> from a link \<open>t\<close>, at most \<open>k\<close>
  of them. A pool of \<open>n\<close> blocks has at most \<open>n\<close> blocks on a chain without repetition.\<close>

fun chain_from :: "block list \<Rightarrow> nat \<Rightarrow> nat \<Rightarrow> nat list" where
  "chain_from p 0 t = []"
| "chain_from p (Suc k) t =
     (if t = 0 \<or> \<not> t - 1 < length p then []
      else (t - 1) # chain_from p k (nxt (p ! (t - 1))))"

definition chain :: "BufferPool \<Rightarrow> nat list" where
  "chain z = chain_from (pool z) (length (pool z)) (tail z)"

text \<open>\<open>is_chain p t js\<close>: following \<open>nxt\<close> from the link \<open>t\<close> visits exactly the blocks
  \<open>js\<close>, all inside the pool, and then reaches the link 0.\<close>

fun is_chain :: "block list \<Rightarrow> nat \<Rightarrow> nat list \<Rightarrow> bool" where
  "is_chain p t [] = (t = 0)"
| "is_chain p t (i # js) = (t = i + 1 \<and> i < length p \<and> is_chain p (nxt (p ! i)) js)"

text \<open>Well-formed pools: the blocks from \<open>tail\<close> form a finite chain without repetition,
  all of its blocks are active, and \<open>head\<close> is its last block (0 when it is empty).\<close>

definition pool_wf :: "BufferPool \<Rightarrow> bool" where
  "pool_wf z =
     (is_chain (pool z) (tail z) (chain z) \<and> distinct (chain z) \<and>
      list_all (\<lambda>i. active (pool z ! i)) (chain z) \<and>
      head z = (if chain z = [] then 0 else last (chain z) + 1))"

text \<open>The property of the data model: the consumed-byte counter lies inside the tail
  block, unless the chain is empty.\<close>

definition tail_ok :: "BufferPool \<Rightarrow> bool" where
  "tail_ok z = (tail z = 0 \<or> pos z < int (len (buf (pool z ! (tail z - 1)))))"

subsection \<open>Sequences of pool operations\<close>

text \<open>The two operations of the pool as values, and the pool after a sequence of calls.
  \<open>Some (Inl e)\<close> is a panic, \<open>None\<close> a call that does not return.\<close>

datatype pool_op = Swap slice int | Free int

fun pool_step :: "BufferPool \<Rightarrow> pool_op \<Rightarrow> (panic + BufferPool) option" where
  "pool_step z (Swap b sz) =
     (case swap z b sz of Inl e \<Rightarrow> Some (Inl e) | Inr (z', nb) \<Rightarrow> Some (Inr z'))"
| "pool_step z (Free n) = free z n"

fun pool_run :: "BufferPool \<Rightarrow> pool_op list \<Rightarrow> (panic + BufferPool) option" where
  "pool_run z [] = Some (Inr z)"
| "pool_run z (x # xs) =
     (case pool_step z x of Some (Inr z') \<Rightarrow> pool_run z' xs | r \<Rightarrow> r)"



subsection \<open>Auxiliary notions for the proofs about the pool\<close>

text \<open>The pool with the blocks \<open>ks\<close> marked inactive, the link to the first block of a
  list of blocks, and the total length of the blocks \<open>ks\<close>.\<close>

fun deact :: "nat list \<Rightarrow> block list \<Rightarrow> block list" where
  "deact [] p = p"
| "deact (i # ks) p = deact ks (p[i := (p ! i)\<lparr>active := False\<rparr>])"

definition link :: "nat list \<Rightarrow> nat" where
  "link js = (case js of [] \<Rightarrow> 0 | i # _ \<Rightarrow> i + 1)"

definition lens :: "block list \<Rightarrow> nat list \<Rightarrow> int" where
  "lens p ks = sum_list (map (\<lambda>i. int (len (buf (p ! i)))) ks)"

text \<open>A pool with a chain of two blocks: four bytes of which one is consumed, then two
  bytes. It is the pool after \<open>free(1)\<close> and two calls of \<open>swap\<close> on a new pool.\<close>

definition ex_pool :: BufferPool where
  "ex_pool = \<lparr>pool = [\<lparr>buf = \<lparr>arr = [1, 2, 3, 4], len = 4\<rparr>, nxt = 2, active = True\<rparr>,
                      \<lparr>buf = \<lparr>arr = [5, 6, 0, 0], len = 2\<rparr>, nxt = 0, active = True\<rparr>],
              head = 2, tail = 1, pos = 1\<rparr>"

section \<open>The byte source\<close>

text \<open>
  The \<open>io.Reader\<close> is outside the repository. It is modelled by a script: the list of the
  results of its future \<open>Read\<close> calls, each a chunk of bytes with the error returned along
  with it (\<open>None\<close> for \<open>nil\<close>). \<open>Read\<close> into a region of \<open>room\<close> bytes delivers the next
  chunk, or as much of it as fits, keeping the rest for the next call; an exhausted script
  returns no bytes and \<open>io.EOF\<close>. The content of the stream is the concatenation of the
  chunks.
\<close>

type_synonym reader = "(byte list \<times> error option) list"

fun Read :: "reader \<Rightarrow> nat \<Rightarrow> byte list \<times> error option \<times> reader" where
  "Read [] room = ([], Some EOF, [])"
| "Read ((bs, e) # rest) room =
     (if length bs \<le> room then (bs, e, rest)
      else (take room bs, None, (drop room bs, e) # rest))"

definition content :: "reader \<Rightarrow> byte list" where
  "content rd = concat (map fst rd)"

text \<open>The argument of \<open>NewLexerSize\<close>: a reader, or a reader that has a \<open>Bytes()\<close> method
  and so gives its whole content at once (the bytes and the spare capacity of the slice
  that \<open>Bytes()\<close> returns).\<close>

datatype source = Stream reader | InMemory "byte list" nat

section \<open>Lexer\<close>

text \<open>
  The fields \<open>r\<close>, \<open>pool\<close>, \<open>buf\<close> and \<open>pos\<close> of the source are \<open>rdr\<close>, \<open>zpool\<close>,
  \<open>zbuf\<close> and \<open>zpos\<close> here (\<open>pool\<close>, \<open>buf\<close> and \<open>pos\<close> are fields of the pool and of
  its blocks). The field \<open>Free\<close> is the method \<open>free\<close> of \<open>zpool\<close>.
\<close>

record Lexer =
  rdr :: reader
  err :: "error option"
  zpool :: BufferPool
  zbuf :: slice
  start :: int
  zpos :: int
  prevStart :: int

text \<open>
  \<open>read\<close> in three parts. \<open>read_size\<close> is the capacity asked of the pool (lines 118 to
  122). \<open>refill\<close> is lines 123 and 125 to 132, given the pool and the buffer that \<open>swap\<close>
  returned: \<open>copy\<close> moves the \<open>d\<close> left-over bytes to the front of the new array (also
  when the new buffer is the old one reused in place: \<open>copy\<close> allows overlap), \<open>Read\<close>
  writes \<open>n\<close> bytes behind them, and the cursor and the token start are renumbered; it
  returns the new state and \<open>n\<close>. \<open>read\<close> puts them together with the panics of the
  slice expressions: \<open>z.buf[:z.start]\<close> panics unless \<open>0 \<le> start \<le> cap(z.buf)\<close>, \<open>buf[:d]\<close>
  and \<open>z.buf[z.start:]\<close> panic unless \<open>0 \<le> d \<le> cap(buf)\<close>, and the last line indexes
  \<open>z.buf[pos]\<close>, which panics when \<open>pos\<close> is outside \<open>buf[:d+n]\<close>.
\<close>

definition read_size :: "Lexer \<Rightarrow> int \<Rightarrow> int" where
  "read_size z p0 =
     (let c = int (cap (zbuf z)); p = p0 - start z
      in if 2 * p > c then 2 * c + p else c)"

definition refill :: "Lexer \<Rightarrow> BufferPool \<Rightarrow> slice \<Rightarrow> Lexer \<times> nat" where
  "refill z pool' nb =
     (let d = nat (int (len (zbuf z)) - start z);
          a1 = drop (nat (start z)) (bytes (zbuf z)) @ drop d (arr nb);
          (data, e, rd') = Read (rdr z) (cap nb - d);
          n = length data
      in (z\<lparr>rdr := rd', err := e, zpool := pool',
            zpos := zpos z - start z, start := 0,
            zbuf := \<lparr>arr = take d a1 @ data @ drop (d + n) a1, len = d + n\<rparr>\<rparr>, n))"

definition read :: "Lexer \<Rightarrow> int \<Rightarrow> panic + (Lexer \<times> byte)" where
  "read z p0 =
     (if err z \<noteq> None then Inr (z, 0)
      else if start z < 0 \<or> int (cap (zbuf z)) < start z then Inl SliceOutOfRange
      else
        case swap (zpool z) ((zbuf z)\<lparr>len := nat (start z)\<rparr>) (read_size z p0) of
          Inl e \<Rightarrow> Inl e
        | Inr (pool', nb) \<Rightarrow>
            if int (len (zbuf z)) - start z < 0 \<or> int (cap nb) < int (len (zbuf z)) - start z
            then Inl SliceOutOfRange
            else
              case refill z pool' nb of
                (z1, n) \<Rightarrow>
                  if n = 0
                  then Inr (z1\<lparr>err := (if err z1 = None then Some EOF else err z1)\<rparr>, 0)
                  else if 0 \<le> p0 - start z \<and> p0 - start z < int (len (zbuf z1))
                  then Inr (z1, arr (zbuf z1) ! nat (p0 - start z))
                  else Inl IndexOutOfRange)"

definition Err :: "Lexer \<Rightarrow> error option" where
  "Err z = (if err z = Some EOF \<and> zpos z < int (len (zbuf z)) then None else err z)"

definition Peek :: "Lexer \<Rightarrow> int \<Rightarrow> panic + (Lexer \<times> byte)" where
  "Peek z p0 =
     (let p = p0 + zpos z
      in if p \<ge> int (len (zbuf z)) then read z p
         else if p < 0 then Inl IndexOutOfRange
         else Inr (z, arr (zbuf z) ! nat p))"

text \<open>\<open>rune(c)\<close> of a byte is \<open>ucast c\<close>; \<open>x << k\<close> is \<open>push_bit k x\<close>. The calls of
  \<open>Peek\<close> happen from left to right, each on the state the one before left.\<close>

definition PeekRune :: "Lexer \<Rightarrow> int \<Rightarrow> panic + (Lexer \<times> rune \<times> int)" where
  "PeekRune z p0 =
     (case Peek z p0 of
        Inl e \<Rightarrow> Inl e
      | Inr (z1, c) \<Rightarrow>
          if c < 0xC0 then Inr (z1, ucast c, 1)
          else if c < 0xE0 then
            (case Peek z1 (p0 + 1) of
               Inl e \<Rightarrow> Inl e
             | Inr (z2, c1) \<Rightarrow>
                 Inr (z2, push_bit 6 (ucast (c AND 0x1F)) OR ucast (c1 AND 0x3F), 2))
          else if c < 0xF0 then
            (case Peek z1 (p0 + 1) of
               Inl e \<Rightarrow> Inl e
             | Inr (z2, c1) \<Rightarrow>
                 (case Peek z2 (p0 + 2) of
                    Inl e \<Rightarrow> Inl e
                  | Inr (z3, c2) \<Rightarrow>
                      Inr (z3, push_bit 12 (ucast (c AND 0x0F)) OR
                               push_bit 6 (ucast (c1 AND 0x3F)) OR ucast (c2 AND 0x3F), 3)))
          else
            (case Peek z1 (p0 + 1) of
               Inl e \<Rightarrow> Inl e
             | Inr (z2, c1) \<Rightarrow>
                 (case Peek z2 (p0 + 2) of
                    Inl e \<Rightarrow> Inl e
                  | Inr (z3, c2) \<Rightarrow>
                      (case Peek z3 (p0 + 3) of
                         Inl e \<Rightarrow> Inl e
                       | Inr (z4, c3) \<Rightarrow>
                           Inr (z4, push_bit 18 (ucast (c AND 0x07)) OR
                                    push_bit 12 (ucast (c1 AND 0x3F)) OR
                                    push_bit 6 (ucast (c2 AND 0x3F)) OR
                                    ucast (c3 AND 0x3F), 4)))))"

definition Move :: "Lexer \<Rightarrow> int \<Rightarrow> Lexer" where
  "Move z n = z\<lparr>zpos := zpos z + n\<rparr>"

definition Pos :: "Lexer \<Rightarrow> int" where
  "Pos z = zpos z - start z"

definition Rewind :: "Lexer \<Rightarrow> int \<Rightarrow> Lexer" where
  "Rewind z p = z\<lparr>zpos := start z + p\<rparr>"

text \<open>\<open>z.buf[z.start:z.pos]\<close> panics unless \<open>0 \<le> start \<le> pos \<le> cap(buf)\<close>; it reaches
  into the array beyond \<open>len(buf)\<close> when \<open>pos\<close> is there. The result is the bytes of the
  view at the time of the call.\<close>

definition Lexeme :: "Lexer \<Rightarrow> panic + byte list" where
  "Lexeme z =
     (if 0 \<le> start z \<and> start z \<le> zpos z \<and> zpos z \<le> int (cap (zbuf z))
      then Inr (take (nat (zpos z - start z)) (drop (nat (start z)) (arr (zbuf z))))
      else Inl SliceOutOfRange)"

definition Shift :: "Lexer \<Rightarrow> panic + (Lexer \<times> byte list)" where
  "Shift z = (case Lexeme z of Inl e \<Rightarrow> Inl e | Inr b \<Rightarrow> Inr (z\<lparr>start := zpos z\<rparr>, b))"

definition ShiftLen :: "Lexer \<Rightarrow> Lexer \<times> int" where
  "ShiftLen z = (z\<lparr>prevStart := start z\<rparr>, start z - prevStart z)"

definition Skip :: "Lexer \<Rightarrow> Lexer" where
  "Skip z = z\<lparr>start := zpos z\<rparr>"

text \<open>The lexer that \<open>NewLexerSize\<close> builds from a reader with a \<open>Bytes()\<close> method.\<close>

definition mem_lexer :: "byte list \<Rightarrow> nat \<Rightarrow> Lexer" where
  "mem_lexer bs spare =
     \<lparr>rdr = [], err = Some EOF, zpool = new_pool,
      zbuf = \<lparr>arr = bs @ replicate spare 0, len = length bs\<rparr>,
      start = 0, zpos = 0, prevStart = 0\<rparr>"

fun NewLexerSize :: "source \<Rightarrow> int \<Rightarrow> panic + Lexer" where
  "NewLexerSize (InMemory bs spare) sz = Inr (mem_lexer bs spare)"
| "NewLexerSize (Stream rd) sz =
     (if sz < 0 then Inl MakeCapOutOfRange
      else
        case Peek \<lparr>rdr = rd, err = None, zpool = new_pool, zbuf = make_bytes sz,
                   start = 0, zpos = 0, prevStart = 0\<rparr> 0 of
          Inl e \<Rightarrow> Inl e
        | Inr (z, c) \<Rightarrow> Inr z)"

subsection \<open>Runs of the lexer\<close>

text \<open>The public operations as values, with what each call returns, and the run of a
  sequence of calls: the final state and the list of the results, in call order. \<open>OpFree\<close>
  is a call of the field \<open>Free\<close>; a call of it that does not return ends the run with
  \<open>Diverged\<close>.\<close>

datatype lexer_op =
  OpPeek int | OpPeekRune int | OpMove int | OpPos | OpRewind int | OpLexeme
  | OpShift | OpShiftLen | OpSkip | OpErr | OpFree int

datatype out =
  OByte byte | ORune rune int | OBytes "byte list" | OInt int | OErr "error option" | ONone

fun lex_step :: "Lexer \<Rightarrow> lexer_op \<Rightarrow> panic + (Lexer \<times> out)" where
  "lex_step z (OpPeek n) =
     (case Peek z n of Inl e \<Rightarrow> Inl e | Inr (z', c) \<Rightarrow> Inr (z', OByte c))"
| "lex_step z (OpPeekRune n) =
     (case PeekRune z n of Inl e \<Rightarrow> Inl e | Inr (z', rn, l) \<Rightarrow> Inr (z', ORune rn l))"
| "lex_step z (OpMove n) = Inr (Move z n, ONone)"
| "lex_step z OpPos = Inr (z, OInt (Pos z))"
| "lex_step z (OpRewind p) = Inr (Rewind z p, ONone)"
| "lex_step z OpLexeme =
     (case Lexeme z of Inl e \<Rightarrow> Inl e | Inr b \<Rightarrow> Inr (z, OBytes b))"
| "lex_step z OpShift =
     (case Shift z of Inl e \<Rightarrow> Inl e | Inr (z', b) \<Rightarrow> Inr (z', OBytes b))"
| "lex_step z OpShiftLen = Inr (fst (ShiftLen z), OInt (snd (ShiftLen z)))"
| "lex_step z OpSkip = Inr (Skip z, ONone)"
| "lex_step z OpErr = Inr (z, OErr (Err z))"
| "lex_step z (OpFree n) =
     (case free (zpool z) n of
        None \<Rightarrow> Inl Diverged
      | Some (Inl e) \<Rightarrow> Inl e
      | Some (Inr p') \<Rightarrow> Inr (z\<lparr>zpool := p'\<rparr>, ONone))"

fun lex_run :: "Lexer \<Rightarrow> lexer_op list \<Rightarrow> panic + (Lexer \<times> out list)" where
  "lex_run z [] = Inr (z, [])"
| "lex_run z (x # xs) =
     (case lex_step z x of
        Inl e \<Rightarrow> Inl e
      | Inr (z', y) \<Rightarrow>
          (case lex_run z' xs of Inl e \<Rightarrow> Inl e | Inr (z'', ys) \<Rightarrow> Inr (z'', y # ys)))"

text \<open>The invariant of the data model.\<close>

definition lexer_inv :: "Lexer \<Rightarrow> bool" where
  "lexer_inv z =
     (0 \<le> start z \<and> start z \<le> zpos z \<and> zpos z \<le> int (len (zbuf z)) \<and>
      len (zbuf z) \<le> cap (zbuf z))"

text \<open>\<open>shifted z xs\<close>: the results of the \<open>Shift\<close> calls of the run of \<open>xs\<close> from \<open>z\<close>,
  concatenated in call order. \<open>committed z xs\<close>: the same with, for every \<open>Skip\<close>, the
  bytes between token start and cursor that the call drops.\<close>

fun shifted :: "Lexer \<Rightarrow> lexer_op list \<Rightarrow> byte list" where
  "shifted z [] = []"
| "shifted z (x # xs) =
     (case lex_step z x of
        Inl e \<Rightarrow> []
      | Inr (z', y) \<Rightarrow>
          (case (x, y) of (OpShift, OBytes b) \<Rightarrow> b | _ \<Rightarrow> []) @ shifted z' xs)"

fun committed :: "Lexer \<Rightarrow> lexer_op list \<Rightarrow> byte list" where
  "committed z [] = []"
| "committed z (x # xs) =
     (case lex_step z x of
        Inl e \<Rightarrow> []
      | Inr (z', y) \<Rightarrow>
          (case (x, y) of
             (OpShift, OBytes b) \<Rightarrow> b
           | (OpSkip, _) \<Rightarrow> (case Lexeme z of Inr b \<Rightarrow> b | Inl e \<Rightarrow> [])
           | _ \<Rightarrow> []) @ committed z' xs)"

text \<open>\<open>in_window z xs\<close>: every call of the run returns, and after every call the cursor
  is between the token start and the end of the buffered bytes.\<close>

fun in_window :: "Lexer \<Rightarrow> lexer_op list \<Rightarrow> bool" where
  "in_window z [] = True"
| "in_window z (x # xs) =
     (case lex_step z x of
        Inl e \<Rightarrow> False
      | Inr (z', y) \<Rightarrow>
          start z' \<le> zpos z' \<and> zpos z' \<le> int (len (zbuf z')) \<and> in_window z' xs)"

fun has_skip :: "lexer_op list \<Rightarrow> bool" where
  "has_skip [] = False"
| "has_skip (x # xs) = (x = OpSkip \<or> has_skip xs)"

text \<open>The results of a run alone.\<close>

definition lex_outs :: "Lexer \<Rightarrow> lexer_op list \<Rightarrow> panic + out list" where
  "lex_outs z xs = (case lex_run z xs of Inl e \<Rightarrow> Inl e | Inr (z', ys) \<Rightarrow> Inr ys)"

text \<open>The content of a source, and the part of the stream that a lexer state has not
  committed yet: the buffered bytes from the token start on, then what the reader still
  holds.\<close>

fun stream :: "source \<Rightarrow> byte list" where
  "stream (Stream rd) = content rd"
| "stream (InMemory bs spare) = bs"

definition pending :: "Lexer \<Rightarrow> byte list" where
  "pending z = drop (nat (start z)) (bytes (zbuf z)) @ content (rdr z)"

subsection \<open>Lexers used as examples\<close>

text \<open>The states that \<open>NewLexerSize\<close> returns for five small readers: \<open>"ab"\<close> then \<open>"c"\<close>
  (size 8), \<open>"abcd"\<close> then \<open>"ef"\<close> (size 4), \<open>"abc"\<close> then \<open>"XYZ"\<close> (size 4), \<open>"ab"\<close>
  (size 4), and \<open>"a"\<close> delivered together with an error that is not \<open>io.EOF\<close> (size 4).\<close>

definition short_lexer :: Lexer where
  "short_lexer = \<lparr>rdr = [([0x63], None)], err = None, zpool = new_pool,
      zbuf = \<lparr>arr = [0x61, 0x62, 0, 0, 0, 0, 0, 0], len = 2\<rparr>,
      start = 0, zpos = 0, prevStart = 0\<rparr>"

definition abcd_lexer :: Lexer where
  "abcd_lexer = \<lparr>rdr = [([0x65, 0x66], None)], err = None, zpool = new_pool,
      zbuf = \<lparr>arr = [0x61, 0x62, 0x63, 0x64], len = 4\<rparr>,
      start = 0, zpos = 0, prevStart = 0\<rparr>"

definition abc_lexer :: Lexer where
  "abc_lexer = \<lparr>rdr = [([0x58, 0x59, 0x5A], None)], err = None, zpool = new_pool,
      zbuf = \<lparr>arr = [0x61, 0x62, 0x63, 0], len = 3\<rparr>,
      start = 0, zpos = 0, prevStart = 0\<rparr>"

definition ab_lexer :: Lexer where
  "ab_lexer = \<lparr>rdr = [], err = None, zpool = new_pool,
      zbuf = \<lparr>arr = [0x61, 0x62, 0, 0], len = 2\<rparr>,
      start = 0, zpos = 0, prevStart = 0\<rparr>"

definition err_lexer :: Lexer where
  "err_lexer = \<lparr>rdr = [], err = Some (SourceError 1), zpool = new_pool,
      zbuf = \<lparr>arr = [0x61, 0, 0, 0], len = 1\<rparr>,
      start = 0, zpos = 0, prevStart = 0\<rparr>"

subsection \<open>Auxiliary notion for the proofs about runs\<close>

text \<open>The bytes that one call commits: the result of \<open>Shift\<close>, or what \<open>Skip\<close> drops.\<close>

definition piece :: "Lexer \<Rightarrow> lexer_op \<Rightarrow> out \<Rightarrow> byte list" where
  "piece z x y =
     (case (x, y) of
        (OpShift, OBytes b) \<Rightarrow> b
      | (OpSkip, _) \<Rightarrow> (case Lexeme z of Inr b \<Rightarrow> b | Inl e \<Rightarrow> [])
      | _ \<Rightarrow> [])"

section \<open>Properties of the BufferPool\<close>

lemma chain_from_is_chain:
  "is_chain p t js \<Longrightarrow> length js \<le> k \<Longrightarrow> chain_from p k t = js"
proof (induction js arbitrary: t k)
  case Nil
  then show ?case by (cases k) auto
next
  case (Cons i js)
  then obtain k' where k: "k = Suc k'" by (cases k) auto
  with Cons show ?case by auto
qed

lemma is_chain_bound: "is_chain p t js \<Longrightarrow> set js \<subseteq> {..<length p}"
  by (induction js arbitrary: t) auto

lemma is_chain_length:
  assumes "is_chain p t js" "distinct js"
  shows "length js \<le> length p"
proof -
  have "card (set js) \<le> card {..<length p}"
    by (rule card_mono) (use assms is_chain_bound in auto)
  with assms(2) show ?thesis by (simp add: distinct_card)
qed

lemma chain_eqI:
  "is_chain (pool z) (tail z) js \<Longrightarrow> distinct js \<Longrightarrow> chain z = js"
  unfolding chain_def by (rule chain_from_is_chain) (auto dest: is_chain_length)

lemma pool_wfI:
  assumes "is_chain (pool z) (tail z) js" "distinct js"
    "\<forall>i\<in>set js. active (pool z ! i)"
    "head z = (if js = [] then 0 else last js + 1)"
  shows "pool_wf z"
  using assms chain_eqI[OF assms(1,2)] by (simp add: pool_wf_def list_all_iff)

lemma pool_wfD:
  assumes "pool_wf z"
  shows "is_chain (pool z) (tail z) (chain z)" "distinct (chain z)"
    "\<forall>i\<in>set (chain z). active (pool z ! i)"
    "head z = (if chain z = [] then 0 else last (chain z) + 1)"
  using assms by (auto simp: pool_wf_def list_all_iff)

lemma is_chain_upd_off:
  "is_chain p t js \<Longrightarrow> i \<notin> set js \<Longrightarrow> is_chain (p[i := b]) t js"
  by (induction js arbitrary: t) auto

lemma is_chain_append:
  "is_chain p t js \<Longrightarrow> is_chain (p @ q) t js"
  by (induction js arbitrary: t) (auto simp: nth_append)

lemma is_chain_snoc:
  "is_chain p t js \<Longrightarrow> distinct js \<Longrightarrow> js \<noteq> [] \<Longrightarrow> sw < length p \<Longrightarrow> sw \<notin> set js \<Longrightarrow>
   nxt (p ! sw) = 0 \<Longrightarrow>
   is_chain (p[last js := (p ! last js)\<lparr>nxt := sw + 1\<rparr>]) t (js @ [sw])"
proof (induction js arbitrary: t)
  case Nil then show ?case by simp
next
  case (Cons i js)
  show ?case
  proof (cases "js = []")
    case True
    with Cons.prems show ?thesis by auto
  next
    case False
    with Cons.prems have "i \<noteq> last js" by auto
    with Cons False show ?thesis by auto
  qed
qed

lemma is_chain_drop:
  "is_chain p t js \<Longrightarrow> is_chain p (case drop m js of [] \<Rightarrow> 0 | i # _ \<Rightarrow> i + 1) (drop m js)"
proof (induction js arbitrary: t m)
  case Nil then show ?case by simp
next
  case (Cons i js)
  then show ?case by (cases m) auto
qed

lemma find_swap_Some:
  "find_swap bs sz k = Some i \<Longrightarrow>
     k \<le> i \<and> i - k < length bs \<and> \<not> active (bs ! (i - k)) \<and> sz \<le> int (cap (buf (bs ! (i - k))))"
proof (induction bs arbitrary: k)
  case Nil then show ?case by simp
next
  case (Cons b bs)
  show ?case
  proof (cases "\<not> active b \<and> sz \<le> int (cap (buf b))")
    case True
    with Cons.prems show ?thesis by auto
  next
    case False
    with Cons.prems have fs: "find_swap bs sz (Suc k) = Some i" by auto
    from Cons.IH[OF fs] have "Suc k \<le> i" "i - Suc k < length bs"
      "\<not> active (bs ! (i - Suc k))" "sz \<le> int (cap (buf (bs ! (i - Suc k))))" by auto
    moreover from \<open>Suc k \<le> i\<close> have "i - k = Suc (i - Suc k)" by simp
    ultimately show ?thesis by simp
  qed
qed

lemma find_swap_0:
  "find_swap bs sz 0 = Some i \<Longrightarrow> i < length bs \<and> \<not> active (bs ! i) \<and> sz \<le> int (cap (buf (bs ! i)))"
  using find_swap_Some[of bs sz 0 i] by simp

text \<open>What intern does to a well-formed pool when the block sw is off the chain.\<close>

lemma intern_wf:
  assumes wf: "pool_wf z" and sw: "sw < length (pool z)" "sw \<notin> set (chain z)"
  shows "\<exists>z'. intern z sw ob = Inr (z', (buf (pool z ! sw))\<lparr>len := 0\<rparr>) \<and> pool_wf z' \<and>
           chain z' = chain z @ [sw] \<and> pos z' = pos z \<and> length (pool z') = length (pool z) \<and>
           (\<forall>i<length (pool z). active (pool z ! i) \<longrightarrow> active (pool z' ! i)) \<and>
           (\<forall>i<length (pool z). i \<noteq> sw \<longrightarrow> buf (pool z' ! i) = buf (pool z ! i)) \<and>
           buf (pool z' ! sw) = ob \<and>
           (tail z \<noteq> 0 \<longrightarrow> tail z' = tail z) \<and> (tail z = 0 \<longrightarrow> tail z' = sw + 1)"
proof -
  let ?js = "chain z"
  let ?p1 = "(pool z)[sw := \<lparr>buf = ob, nxt = 0, active = True\<rparr>]"
  note D = pool_wfD[OF wf]
  have c1: "is_chain ?p1 (tail z) ?js"
    using D(1) sw(2) by (rule is_chain_upd_off)
  show ?thesis
  proof (cases "?js = []")
    case True
    with D have h0: "head z = 0" and t0: "tail z = 0" by auto
    let ?z' = "z\<lparr>pool := ?p1, head := sw + 1, tail := sw + 1\<rparr>"
    have i: "intern z sw ob = Inr (?z', (buf (pool z ! sw))\<lparr>len := 0\<rparr>)"
      using sw(1) h0 t0 by (simp add: intern_def Let_def)
    have ch: "is_chain (pool ?z') (tail ?z') [sw]" using sw(1) by simp
    have wf': "pool_wf ?z'"
      by (rule pool_wfI[OF ch]) (use sw(1) in auto)
    have ce: "chain ?z' = [sw]" by (rule chain_eqI[OF ch]) simp
    show ?thesis
      apply (rule exI[of _ ?z'])
      using i wf' ce True t0 sw(1) by (auto simp: nth_list_update)
  next
    case False
    with D have h: "head z = last ?js + 1" by simp
    from False D(1) have t: "tail z \<noteq> 0" by (cases ?js) auto
    have lj: "last ?js \<in> set ?js" using False by simp
    with is_chain_bound[OF D(1)] have ll: "last ?js < length (pool z)" by auto
    from lj sw(2) have ne: "last ?js \<noteq> sw" by auto
    let ?p2 = "?p1[last ?js := (?p1 ! last ?js)\<lparr>nxt := sw + 1\<rparr>]"
    let ?z' = "z\<lparr>pool := ?p2, head := sw + 1, tail := tail z\<rparr>"
    have i: "intern z sw ob = Inr (?z', (buf (pool z ! sw))\<lparr>len := 0\<rparr>)"
      using sw(1) h t ll by (simp add: intern_def Let_def)
    have ch: "is_chain (pool ?z') (tail ?z') (?js @ [sw])"
      using is_chain_snoc[OF c1 D(2) False _ sw(2)] sw(1) by simp
    have dj: "distinct (?js @ [sw])" using D(2) sw(2) by simp
    have act: "\<forall>i\<in>set (?js @ [sw]). active (pool ?z' ! i)"
      using D(3) sw(1) is_chain_bound[OF D(1)] lj by (auto simp: nth_list_update)
    have wf': "pool_wf ?z'"
      by (rule pool_wfI[OF ch dj act]) simp
    have ce: "chain ?z' = ?js @ [sw]" by (rule chain_eqI[OF ch dj])
    show ?thesis
      apply (rule exI[of _ ?z'])
      using i wf' ce sw(1) ne ll t by (auto simp: nth_list_update)
  qed
qed

lemma pool_wf_pos_upd [simp]: "pool_wf (z\<lparr>pos := x\<rparr>) = pool_wf z"
  by (simp add: pool_wf_def chain_def)

lemma chain_pos_upd [simp]: "chain (z\<lparr>pos := x\<rparr>) = chain z"
  by (simp add: chain_def)

lemma cap_len_upd [simp]: "cap (s\<lparr>len := n\<rparr>) = cap s"
  by (simp add: cap_def)

lemma cap_make_bytes [simp]: "cap (make_bytes sz) = nat sz"
  by (simp add: cap_def make_bytes_def)

lemma chain_hd: "pool_wf z \<Longrightarrow> tail z \<noteq> 0 \<Longrightarrow> tail z - 1 \<in> set (chain z) \<and> tail z - 1 < length (pool z)"
  using pool_wfD(1)[of z] by (cases "chain z") auto

lemma pool_wf_grow:
  assumes wf: "pool_wf z"
  shows "pool_wf (z\<lparr>pool := pool z @ [b]\<rparr>) \<and> chain (z\<lparr>pool := pool z @ [b]\<rparr>) = chain z"
proof -
  let ?z = "z\<lparr>pool := pool z @ [b]\<rparr>"
  note D = pool_wfD[OF wf]
  have ch: "is_chain (pool ?z) (tail ?z) (chain z)"
    using is_chain_append[OF D(1)] by simp
  have act: "\<forall>i\<in>set (chain z). active (pool ?z ! i)"
    using D(3) is_chain_bound[OF D(1)] by (auto simp: nth_append)
  have "pool_wf ?z" by (rule pool_wfI[OF ch D(2) act]) (use D(4) in simp)
  moreover have "chain ?z = chain z" by (rule chain_eqI[OF ch D(2)])
  ultimately show ?thesis by simp
qed

lemma swap_wf:
  assumes wf: "pool_wf z" and ok: "0 \<le> sz \<or> (\<exists>r. swap z ob sz = Inr r)"
  shows "\<exists>z' nb. swap z ob sz = Inr (z', nb) \<and> pool_wf z' \<and> len nb = 0 \<and> sz \<le> int (cap nb) \<and>
           length (pool z) \<le> length (pool z') \<and>
           (\<forall>i<length (pool z). active (pool z ! i) \<longrightarrow> active (pool z' ! i)) \<and>
           (tail z \<noteq> 0 \<longrightarrow> tail z' = tail z \<and> pos z' = pos z \<and>
              buf (pool z' ! (tail z - 1)) = buf (pool z ! (tail z - 1))) \<and>
           (tail z = 0 \<longrightarrow> tail z' = 0 \<or>
              (pos z' = pos z \<and> buf (pool z' ! (tail z' - 1)) = ob))"
proof (cases "find_swap (pool z) sz 0")
  case (Some i)
  from find_swap_0[OF Some] have i: "i < length (pool z)" "\<not> active (pool z ! i)"
    "sz \<le> int (cap (buf (pool z ! i)))" by auto
  from i(2) pool_wfD(3)[OF wf] have off: "i \<notin> set (chain z)" by auto
  from intern_wf[OF wf i(1) off, of ob] obtain z' where
    z': "intern z i ob = Inr (z', (buf (pool z ! i))\<lparr>len := 0\<rparr>)" "pool_wf z'"
      "pos z' = pos z" "length (pool z') = length (pool z)"
      "\<forall>j<length (pool z). active (pool z ! j) \<longrightarrow> active (pool z' ! j)"
      "\<forall>j<length (pool z). j \<noteq> i \<longrightarrow> buf (pool z' ! j) = buf (pool z ! j)"
      "buf (pool z' ! i) = ob"
      "tail z \<noteq> 0 \<longrightarrow> tail z' = tail z" "tail z = 0 \<longrightarrow> tail z' = i + 1"
    by (elim exE conjE) (rule that; assumption)
  have "tail z \<noteq> 0 \<longrightarrow> buf (pool z' ! (tail z - 1)) = buf (pool z ! (tail z - 1))"
    using chain_hd[OF wf] off z'(6) by auto
  with z' i(3) Some show ?thesis by (simp add: swap_def)
next
  case None
  show ?thesis
  proof (cases "tail z = 0 \<and> pos z \<ge> int (len ob) \<and> sz \<le> int (cap ob)")
    case True
    with None wf show ?thesis by (simp add: swap_def)
  next
    case False
    have sz: "0 \<le> sz"
    proof (rule ccontr)
      assume "\<not> 0 \<le> sz"
      with None False have "swap z ob sz = Inl MakeCapOutOfRange" by (simp add: swap_def)
      with ok \<open>\<not> 0 \<le> sz\<close> show False by auto
    qed
    let ?b = "\<lparr>buf = make_bytes sz, nxt = 0, active = True\<rparr>"
    let ?z1 = "z\<lparr>pool := pool z @ [?b]\<rparr>"
    from pool_wf_grow[OF wf, of ?b] have wf1: "pool_wf ?z1" and c1: "chain ?z1 = chain z" by auto
    have off: "length (pool z) \<notin> set (chain ?z1)"
      using is_chain_bound[OF pool_wfD(1)[OF wf]] c1 by auto
    from intern_wf[OF wf1 _ off, of ob] obtain z' where
      z': "intern ?z1 (length (pool z)) ob = Inr (z', (buf (pool ?z1 ! length (pool z)))\<lparr>len := 0\<rparr>)"
        "pool_wf z'" "pos z' = pos ?z1" "length (pool z') = length (pool ?z1)"
        "\<forall>j<length (pool ?z1). active (pool ?z1 ! j) \<longrightarrow> active (pool z' ! j)"
        "\<forall>j<length (pool ?z1). j \<noteq> length (pool z) \<longrightarrow> buf (pool z' ! j) = buf (pool ?z1 ! j)"
        "buf (pool z' ! length (pool z)) = ob"
        "tail ?z1 \<noteq> 0 \<longrightarrow> tail z' = tail ?z1" "tail ?z1 = 0 \<longrightarrow> tail z' = length (pool z) + 1"
      by auto
    have sw: "swap z ob sz = Inr (z', (make_bytes sz)\<lparr>len := 0\<rparr>)"
      using None False sz z'(1) by (auto simp: swap_def)
    have a: "\<forall>i<length (pool z). active (pool z ! i) \<longrightarrow> active (pool z' ! i)"
      using z'(5) by (auto simp: nth_append)
    have b: "tail z \<noteq> 0 \<longrightarrow> buf (pool z' ! (tail z - 1)) = buf (pool z ! (tail z - 1))"
      using chain_hd[OF wf] z'(6) by (auto simp: nth_append)
    from sw z'(2,3,4,7,8,9) a b sz show ?thesis by simp
  qed
qed

lemma lens_simps [simp]: "lens p [] = 0" "lens p (i # ks) = int (len (buf (p ! i))) + lens p ks"
  by (simp_all add: lens_def)

lemma lens_nonneg: "0 \<le> lens p ks"
  by (induction ks) auto

lemma length_deact [simp]: "length (deact ks p) = length p"
  by (induction ks arbitrary: p) auto

lemma buf_upd_active: "i < length p \<Longrightarrow> buf (p[k := (p ! k)\<lparr>active := a\<rparr>] ! i) = buf (p ! i)"
  by (cases "i = k") auto

lemma nxt_upd_active: "i < length p \<Longrightarrow> nxt (p[k := (p ! k)\<lparr>active := a\<rparr>] ! i) = nxt (p ! i)"
  by (cases "i = k") auto

lemma buf_deact: "i < length p \<Longrightarrow> buf (deact ks p ! i) = buf (p ! i)"
  by (induction ks arbitrary: p) (auto simp: buf_upd_active)

lemma nxt_deact: "i < length p \<Longrightarrow> nxt (deact ks p ! i) = nxt (p ! i)"
  by (induction ks arbitrary: p) (auto simp: nxt_upd_active)

lemma active_deact_off: "i \<notin> set ks \<Longrightarrow> active (deact ks p ! i) = active (p ! i)"
  by (induction ks arbitrary: p) auto

lemma active_deact_on: "i \<in> set ks \<Longrightarrow> set ks \<subseteq> {..<length p} \<Longrightarrow> \<not> active (deact ks p ! i)"
proof (induction ks arbitrary: p)
  case Nil then show ?case by simp
next
  case (Cons k ks)
  show ?case
  proof (cases "i \<in> set ks")
    case True
    with Cons show ?thesis by auto
  next
    case False
    with Cons.prems have "i = k" "k < length p" by auto
    with False show ?thesis by (simp add: active_deact_off)
  qed
qed

lemma is_chain_cong:
  "is_chain p t js \<Longrightarrow> length q = length p \<Longrightarrow> (\<forall>i<length p. nxt (q ! i) = nxt (p ! i)) \<Longrightarrow>
   is_chain q t js"
  by (induction js arbitrary: t) auto

lemma is_chain_deact: "is_chain p t js \<Longrightarrow> is_chain (deact ks p) t js"
  by (rule is_chain_cong) (auto simp: nxt_deact)

lemma lens_cong: "set ks \<subseteq> {..<length p} \<Longrightarrow> (\<forall>i<length p. buf (q ! i) = buf (p ! i)) \<Longrightarrow> lens q ks = lens p ks"
  by (induction ks) auto

text \<open>The loop of free on a chain: it pops the first m blocks, where m is the longest prefix
  whose total length is at most pos.\<close>

lemma free_loop_chain:
  "is_chain (pool z) (tail z) js \<Longrightarrow> distinct js \<Longrightarrow>
   \<exists>m\<le>length js.
      free_loop z = Some (Inr (z\<lparr>pos := pos z - lens (pool z) (take m js),
                                  pool := deact (take m js) (pool z),
                                  tail := link (drop m js)\<rparr>)) \<and>
      (0 < m \<longrightarrow> lens (pool z) (take m js) \<le> pos z) \<and>
      (m < length js \<longrightarrow> pos z < lens (pool z) (take (Suc m) js))"
proof (induction js arbitrary: z)
  case Nil
  then have "tail z = 0" by simp
  then have "free_loop z = Some (Inr z)" by (subst free_loop.simps) simp
  with \<open>tail z = 0\<close> show ?case by (simp add: link_def)
next
  case (Cons i js)
  then have t: "tail z = i + 1" and i: "i < length (pool z)"
    and ch: "is_chain (pool z) (nxt (pool z ! i)) js" and d: "i \<notin> set js" "distinct js"
    by auto
  let ?b = "pool z ! i"
  show ?case
  proof (cases "pos z \<ge> int (len (buf ?b))")
    case False
    have "free_loop z = Some (Inr z)"
      by (subst free_loop.simps) (use t i False in \<open>simp add: Let_def\<close>)
    with t False show ?thesis
      by (intro exI[of _ 0]) (simp add: link_def)
  next
    case True
    let ?z1 = "z\<lparr>pos := pos z - int (len (buf ?b)),
                  pool := (pool z)[i := ?b\<lparr>active := False\<rparr>], tail := nxt ?b\<rparr>"
    have fl: "free_loop z = free_loop ?z1"
      by (subst free_loop.simps) (use t i True in \<open>simp add: Let_def\<close>)
    have ch1: "is_chain (pool ?z1) (tail ?z1) js"
      using is_chain_upd_off[OF ch d(1)] by simp
    from Cons.IH[OF ch1 d(2)] obtain m where m: "m \<le> length js"
      "free_loop ?z1 = Some (Inr (?z1\<lparr>pos := pos ?z1 - lens (pool ?z1) (take m js),
                                  pool := deact (take m js) (pool ?z1),
                                  tail := link (drop m js)\<rparr>))"
      "0 < m \<longrightarrow> lens (pool ?z1) (take m js) \<le> pos ?z1"
      "m < length js \<longrightarrow> pos ?z1 < lens (pool ?z1) (take (Suc m) js)" by blast
    have sub: "\<And>k. set (take k js) \<subseteq> {..<length (pool z)}"
      using is_chain_bound[OF ch] by (meson order_trans set_take_subset)
    have le: "\<And>k. lens (pool ?z1) (take k js) = lens (pool z) (take k js)"
      by (rule lens_cong[OF sub]) (auto simp: buf_upd_active)
    have "free_loop z = Some (Inr (z\<lparr>pos := pos z - lens (pool z) (take (Suc m) (i # js)),
                                  pool := deact (take (Suc m) (i # js)) (pool z),
                                  tail := link (drop (Suc m) (i # js))\<rparr>))"
      using fl m(2) le by simp
    moreover have "lens (pool z) (take (Suc m) (i # js)) \<le> pos z"
      using m(3) le True lens_nonneg[of "pool z" "take m js"] by (cases "m = 0") auto
    moreover have "Suc m < length (i # js) \<longrightarrow> pos z < lens (pool z) (take (Suc (Suc m)) (i # js))"
      using m(4) le by auto
    ultimately show ?thesis using m(1)
      by (intro exI[of _ "Suc m"]) simp
  qed
qed

lemma take_Suc_lens:
  "m < length js \<Longrightarrow> lens p (take (Suc m) js) = lens p (take m js) + int (len (buf (p ! (js ! m))))"
  by (simp add: take_Suc_conv_app_nth lens_def)


lemma link_0: "link js = 0 \<longleftrightarrow> js = []"
  by (cases js) (auto simp: link_def)

lemma free_wf:
  assumes wf: "pool_wf z"
  shows "\<exists>z' m. m \<le> length (chain z) \<and> free z n = Some (Inr z') \<and> pool_wf z' \<and> tail_ok z' \<and>
           chain z' = drop m (chain z) \<and> pool z' = deact (take m (chain z)) (pool z) \<and>
           pos z' = pos z + n - lens (pool z) (take m (chain z)) \<and>
           (0 < m \<longrightarrow> lens (pool z) (take m (chain z)) \<le> pos z + n) \<and>
           (m < length (chain z) \<longrightarrow> pos z + n < lens (pool z) (take (Suc m) (chain z)))"
proof -
  let ?js = "chain z"
  let ?z0 = "z\<lparr>pos := pos z + n\<rparr>"
  note D = pool_wfD[OF wf]
  have "is_chain (pool ?z0) (tail ?z0) ?js" using D(1) by simp
  from free_loop_chain[OF this D(2)] obtain m where m: "m \<le> length ?js"
    "free_loop ?z0 = Some (Inr (?z0\<lparr>pos := pos ?z0 - lens (pool ?z0) (take m ?js),
                                  pool := deact (take m ?js) (pool ?z0),
                                  tail := link (drop m ?js)\<rparr>))"
    "0 < m \<longrightarrow> lens (pool ?z0) (take m ?js) \<le> pos ?z0"
    "m < length ?js \<longrightarrow> pos ?z0 < lens (pool ?z0) (take (Suc m) ?js)" by blast
  let ?z1 = "?z0\<lparr>pos := pos ?z0 - lens (pool ?z0) (take m ?js),
                  pool := deact (take m ?js) (pool ?z0), tail := link (drop m ?js)\<rparr>"
  let ?z' = "if tail ?z1 = 0 then ?z1\<lparr>head := 0\<rparr> else ?z1"
  have fr: "free z n = Some (Inr ?z')" using m(2) by (simp add: free_def)
  have ch: "is_chain (pool ?z') (tail ?z') (drop m ?js)"
    using is_chain_deact[OF is_chain_drop[OF D(1), of m], of "take m ?js"]
    by (auto simp: link_def)
  have dd: "distinct (drop m ?js)" using D(2) by simp
  have disj: "\<And>i. i \<in> set (drop m ?js) \<Longrightarrow> i \<notin> set (take m ?js)"
    using D(2) by (metis append_take_drop_id distinct_append disjoint_iff)
  have act: "\<forall>i\<in>set (drop m ?js). active (pool ?z' ! i)"
    using D(3) disj by (auto simp: active_deact_off dest: in_set_dropD)
  have hd: "head ?z' = (if drop m ?js = [] then 0 else last (drop m ?js) + 1)"
    using D(4) m(1) by (auto simp: link_0)
  have wf': "pool_wf ?z'" by (rule pool_wfI[OF ch dd act hd])
  have ce: "chain ?z' = drop m ?js" by (rule chain_eqI[OF ch dd])
  have tok: "tail_ok ?z'"
  proof (cases "m < length ?js")
    case False
    then show ?thesis using m(1) by (simp add: tail_ok_def link_def)
  next
    case True
    then have dr: "drop m ?js = (?js ! m) # drop (Suc m) ?js" by (simp add: Cons_nth_drop_Suc)
    have lt: "?js ! m < length (pool z)"
      using is_chain_bound[OF D(1)] nth_mem[OF True] by blast
    have "pos z + n - lens (pool z) (take m ?js) < int (len (buf (pool z ! (?js ! m))))"
      using m(4) True take_Suc_lens[OF True, of "pool z"] by simp
    then show ?thesis using dr lt by (simp add: tail_ok_def link_def buf_deact)
  qed
  show ?thesis
    apply (rule exI[of _ ?z'], rule exI[of _ m])
    using m(1,3,4) fr wf' tok ce by auto
qed


lemma pool_wf_new: "pool_wf new_pool"
  by (simp add: pool_wf_def chain_def new_pool_def)

lemma free_total:
  assumes wf: "pool_wf z"
  shows "\<exists>z'. free z n = Some (Inr z') \<and> pool_wf z' \<and> tail_ok z' \<and>
           length (pool z') = length (pool z) \<and>
           (\<forall>i<length (pool z). active (pool z' ! i) \<longrightarrow> active (pool z ! i)) \<and>
           (\<forall>i<length (pool z). active (pool z ! i) \<and> \<not> active (pool z' ! i) \<longrightarrow>
               i \<in> set (chain z) \<and> i \<notin> set (chain z'))"
proof -
  let ?js = "chain z"
  note D = pool_wfD[OF wf]
  from free_wf[OF wf, of n] obtain z' m where m: "m \<le> length ?js"
    "free z n = Some (Inr z')" "pool_wf z'" "tail_ok z'" "chain z' = drop m ?js"
    "pool z' = deact (take m ?js) (pool z)"
    by (elim exE conjE) (rule that; assumption)
  have sub: "set (take m ?js) \<subseteq> {..<length (pool z)}"
    using is_chain_bound[OF D(1)] by (meson order_trans set_take_subset)
  have disj: "\<And>i. i \<in> set (take m ?js) \<Longrightarrow> i \<notin> set (drop m ?js)"
    using D(2) by (metis append_take_drop_id distinct_append disjoint_iff)
  have a: "\<forall>i<length (pool z). active (pool z' ! i) \<longrightarrow> active (pool z ! i)"
  proof (intro allI impI)
    fix i assume "i < length (pool z)" "active (pool z' ! i)"
    then show "active (pool z ! i)"
      using m(6) sub active_deact_on[of i "take m ?js" "pool z"]
        active_deact_off[of i "take m ?js" "pool z"]
      by (cases "i \<in> set (take m ?js)") auto
  qed
  have b: "\<forall>i<length (pool z). active (pool z ! i) \<and> \<not> active (pool z' ! i) \<longrightarrow>
               i \<in> set (chain z) \<and> i \<notin> set (chain z')"
  proof (intro allI impI)
    fix i assume "i < length (pool z)" and h: "active (pool z ! i) \<and> \<not> active (pool z' ! i)"
    then have "i \<in> set (take m ?js)"
      using m(6) active_deact_off[of i "take m ?js" "pool z"] by auto
    then show "i \<in> set (chain z) \<and> i \<notin> set (chain z')"
      using disj m(5) by (auto dest: in_set_takeD)
  qed
  from m(2,3,4,6) a b show ?thesis by simp
qed

lemma pool_run_wf:
  "pool_wf z \<Longrightarrow> pool_run z ops = Some (Inr z') \<Longrightarrow> pool_wf z'"
proof (induction ops arbitrary: z)
  case Nil then show ?case by simp
next
  case (Cons x xs)
  show ?case
  proof (cases x)
    case (Swap b sz)
    with Cons.prems(2) obtain z1 nb where s: "swap z b sz = Inr (z1, nb)"
      and r: "pool_run z1 xs = Some (Inr z')"
      by (auto split: sum.splits)
    from swap_wf[OF Cons.prems(1), of sz b] s have "pool_wf z1" by auto
    from Cons.IH[OF this r] show ?thesis .
  next
    case (Free n)
    from free_total[OF Cons.prems(1), of n] obtain z1 where
      f: "free z n = Some (Inr z1)" and w: "pool_wf z1" by blast
    with Cons.prems(2) Free have "pool_run z1 xs = Some (Inr z')" by simp
    from Cons.IH[OF w this] show ?thesis .
  qed
qed



lemma ex_run: "pool_run new_pool [Free 1, Swap \<lparr>arr = [1, 2, 3, 4], len = 4\<rparr> 4,
            Swap \<lparr>arr = [5, 6, 0, 0], len = 2\<rparr> 4] = Some (Inr ex_pool)"
  by (simp add: new_pool_def ex_pool_def free_def free_loop.simps swap_def intern_def
       make_bytes_def cap_def Let_def)

lemma ex_pool_wf: "pool_wf ex_pool"
  by (simp add: pool_wf_def chain_def ex_pool_def)

subsection \<open>The buffer returned by swap\<close>

lemma swap_result:
  "swap z ob sz = Inr (z', nb) \<Longrightarrow> len nb = 0 \<and> sz \<le> int (cap nb)"
proof (cases "find_swap (pool z) sz 0")
  case (Some i)
  assume s: "swap z ob sz = Inr (z', nb)"
  from find_swap_0[OF Some] have "sz \<le> int (cap (buf (pool z ! i)))" by auto
  with Some s show ?thesis
    by (auto simp: swap_def intern_def Let_def split: if_splits)
next
  case None
  assume s: "swap z ob sz = Inr (z', nb)"
  with None show ?thesis
    by (auto simp: swap_def intern_def Let_def nth_append split: if_splits)
qed

text \<open>
  Claim C9. For every pool state, every retired buffer and every requested capacity
  \<open>size\<close>, a buffer that \<open>swap(oldBuf, size)\<close> returns has length 0 and capacity at least
  \<open>size\<close>, on each of its three paths (first inactive block that fits, reuse of the retired
  buffer in place, fresh allocation). And \<open>swap\<close> does return when \<open>size \<ge> 0\<close> and the
  \<open>head\<close> link lies inside the pool, as it does in every pool that the code builds (on a
  negative \<open>size\<close> the allocation \<open>make([]byte, 0, size)\<close> panics).
\<close>

theorem swap_capacity:
  "(\<forall>z' nb. swap z oldBuf sz = Inr (z', nb) \<longrightarrow> len nb = 0 \<and> sz \<le> int (cap nb)) \<and>
   (head z \<le> length (pool z) \<and> 0 \<le> sz \<longrightarrow> (\<exists>z' nb. swap z oldBuf sz = Inr (z', nb)))"
proof -
  have a: "\<forall>z' nb. swap z oldBuf sz = Inr (z', nb) \<longrightarrow> len nb = 0 \<and> sz \<le> int (cap nb)"
    using swap_result by blast
  have b: "\<exists>z' nb. swap z oldBuf sz = Inr (z', nb)"
    if h: "head z \<le> length (pool z) \<and> 0 \<le> sz"
  proof (cases "find_swap (pool z) sz 0")
    case (Some i)
    from find_swap_0[OF Some] have "i < length (pool z)" by auto
    with Some h show ?thesis by (auto simp: swap_def intern_def Let_def)
  next
    case None
    show ?thesis
    proof (cases "tail z = 0 \<and> pos z \<ge> int (len oldBuf) \<and> sz \<le> int (cap oldBuf)")
      case True
      with None show ?thesis by (simp add: swap_def)
    next
      case False
      with None h show ?thesis by (auto simp: swap_def intern_def Let_def)
    qed
  qed
  from a b show ?thesis by blast
qed

theorem swap_capacity_witness:
  "\<exists>z' nb. swap new_pool (make_bytes 4) 8 = Inr (z', nb) \<and> len nb = 0 \<and> (8::int) \<le> int (cap nb)"
proof -
  from swap_capacity[of new_pool "make_bytes 4" 8] obtain z' nb
    where s: "swap new_pool (make_bytes 4) 8 = Inr (z', nb)" by (auto simp: new_pool_def)
  with swap_capacity[of new_pool "make_bytes 4" 8] show ?thesis by blast
qed

subsection \<open>Blocks on the chain are active\<close>

text \<open>
  Claim C10. In every pool \<open>z\<close> reached from the new pool by a sequence of calls of \<open>swap\<close>
  and \<open>free\<close> that return: the blocks met by following \<open>next\<close> from \<open>tail\<close> form a
  chain that ends at the link 0 (\<open>chain z\<close> lists them all), and every one of them has
  \<open>active = true\<close>. A further call of \<open>swap\<close> clears no flag; a further call of \<open>free\<close>
  returns, and a block whose flag it clears was on the chain before the call and is not on it
  after the call.
\<close>

theorem chain_blocks_active:
  assumes "pool_run new_pool ops = Some (Inr z)"
  shows "is_chain (pool z) (tail z) (chain z) \<and>
         list_all (\<lambda>i. active (pool z ! i)) (chain z) \<and>
         (\<forall>b sz z' nb. swap z b sz = Inr (z', nb) \<longrightarrow>
            (\<forall>i<length (pool z). active (pool z ! i) \<longrightarrow> active (pool z' ! i))) \<and>
         (\<forall>n. \<exists>z'. free z n = Some (Inr z') \<and>
            (\<forall>i<length (pool z). active (pool z ! i) \<and> \<not> active (pool z' ! i) \<longrightarrow>
               i \<in> set (chain z) \<and> i \<notin> set (chain z')))"
proof -
  have wf: "pool_wf z" by (rule pool_run_wf[OF pool_wf_new assms])
  have a: "is_chain (pool z) (tail z) (chain z)" "list_all (\<lambda>i. active (pool z ! i)) (chain z)"
    using wf by (simp_all add: pool_wf_def)
  have b: "\<forall>b sz z' nb. swap z b sz = Inr (z', nb) \<longrightarrow>
            (\<forall>i<length (pool z). active (pool z ! i) \<longrightarrow> active (pool z' ! i))"
  proof (intro allI impI)
    fix b sz z' nb i
    assume s: "swap z b sz = Inr (z', nb)" and i: "i < length (pool z)" "active (pool z ! i)"
    from swap_wf[OF wf, of sz b] s i show "active (pool z' ! i)" by auto
  qed
  have c: "\<forall>n. \<exists>z'. free z n = Some (Inr z') \<and>
            (\<forall>i<length (pool z). active (pool z ! i) \<and> \<not> active (pool z' ! i) \<longrightarrow>
               i \<in> set (chain z) \<and> i \<notin> set (chain z'))"
    using free_total[OF wf] by blast
  from a b c show ?thesis by blast
qed

theorem chain_blocks_active_witness:
  "is_chain (pool ex_pool) (tail ex_pool) (chain ex_pool) \<and>
   chain ex_pool = [0, 1] \<and> active (pool ex_pool ! 0) \<and> active (pool ex_pool ! 1)"
  using chain_blocks_active[OF ex_run] by (simp add: chain_def ex_pool_def)

subsection \<open>The consumed-byte counter and the tail block\<close>

text \<open>
  Claim C7, as stated, fails after \<open>swap\<close>: on a new pool, \<open>swap\<close> of an empty retired buffer
  of capacity 4 with requested capacity 8 allocates, makes the empty buffer the tail block,
  and leaves \<open>pos = 0\<close>, which is not less than the length 0 of the tail block.
\<close>

theorem swap_breaks_tail_ok_counterexample:
  "swap new_pool (make_bytes 4) 8 =
     Inr (\<lparr>pool = [\<lparr>buf = make_bytes 4, nxt = 0, active = True\<rparr>], head = 1, tail = 1, pos = 0\<rparr>,
          make_bytes 8) \<and>
   \<not> tail_ok \<lparr>pool = [\<lparr>buf = make_bytes 4, nxt = 0, active = True\<rparr>], head = 1, tail = 1, pos = 0\<rparr>"
  by (simp add: swap_def intern_def new_pool_def make_bytes_def cap_def tail_ok_def Let_def)

text \<open>
  Claim C7, amended. On a well-formed pool, \<open>free(n)\<close> returns for every \<open>n\<close>, and after it
  \<open>pos\<close> is less than the length of the tail block unless the chain is empty. \<open>swap\<close> keeps
  that property (and its failure) when the chain was not empty before the call; on an empty
  chain the property holds after \<open>swap\<close> exactly when the chain is still empty (the retired
  buffer was reused in place) or \<open>pos\<close> is less than the length of the retired buffer.
\<close>

theorem tail_ok_after:
  assumes "pool_wf z"
  shows "(\<exists>z'. free z n = Some (Inr z') \<and> tail_ok z') \<and>
         (\<forall>z' nb. swap z b sz = Inr (z', nb) \<longrightarrow>
            tail_ok z' = (if tail z \<noteq> 0 then tail_ok z else tail z' = 0 \<or> pos z < int (len b)))"
proof -
  have a: "\<exists>z'. free z n = Some (Inr z') \<and> tail_ok z'"
    using free_total[OF assms, of n] by blast
  have b: "\<forall>z' nb. swap z b sz = Inr (z', nb) \<longrightarrow>
            tail_ok z' = (if tail z \<noteq> 0 then tail_ok z else tail z' = 0 \<or> pos z < int (len b))"
  proof (intro allI impI)
    fix z' nb assume s: "swap z b sz = Inr (z', nb)"
    from swap_wf[OF assms, of sz b] s have
      t1: "tail z \<noteq> 0 \<longrightarrow> tail z' = tail z \<and> pos z' = pos z \<and>
              buf (pool z' ! (tail z - 1)) = buf (pool z ! (tail z - 1))"
      and t0: "tail z = 0 \<longrightarrow> tail z' = 0 \<or>
              (pos z' = pos z \<and> buf (pool z' ! (tail z' - 1)) = b)" by auto
    show "tail_ok z' = (if tail z \<noteq> 0 then tail_ok z else tail z' = 0 \<or> pos z < int (len b))"
    proof (cases "tail z = 0")
      case True
      with t0 show ?thesis by (auto simp: tail_ok_def)
    next
      case False
      with t1 show ?thesis by (simp add: tail_ok_def)
    qed
  qed
  from a b show ?thesis by blast
qed

theorem tail_ok_after_witness:
  "(\<exists>z'. free ex_pool 3 = Some (Inr z') \<and> tail_ok z') \<and>
   (\<exists>z' nb. swap ex_pool (make_bytes 4) 4 = Inr (z', nb) \<and> tail_ok z')"
proof -
  obtain z' nb where s: "swap ex_pool (make_bytes 4) 4 = Inr (z', nb)"
    by (simp add: swap_def intern_def ex_pool_def make_bytes_def cap_def Let_def)
  have "tail_ok ex_pool" by (simp add: tail_ok_def ex_pool_def)
  with s tail_ok_after[OF ex_pool_wf, of 3 "make_bytes 4" 4] show ?thesis
    by (simp add: ex_pool_def)
qed

subsection \<open>When free clears a flag\<close>



section \<open>Properties of the Lexer\<close>

subsection \<open>Refills, peeks and runs\<close>

lemma Read_props:
  "Read rd room = (data, e, rd') \<Longrightarrow> length data \<le> room \<and> data @ content rd' = content rd"
  by (cases rd) (auto simp: content_def split: if_splits)

lemma read_size_ge: "int (cap (zbuf z)) \<le> read_size z p0"
  by (simp add: read_size_def Let_def)

lemma refill_props:
  assumes rf: "refill z pool' nb = (z1, n)"
    and st: "0 \<le> start z" "start z \<le> int (len (zbuf z))" "len (zbuf z) \<le> cap (zbuf z)"
    and d: "int (len (zbuf z)) - start z \<le> int (cap nb)"
  shows "start z1 = 0" "zpos z1 = zpos z - start z" "zpool z1 = pool'"
    "prevStart z1 = prevStart z"
    "int (len (zbuf z1)) = int (len (zbuf z)) - start z + int n"
    "cap (zbuf z1) = cap nb" "len (zbuf z1) \<le> cap (zbuf z1)"
    "pending z1 = pending z"
    "\<exists>data. bytes (zbuf z1) = drop (nat (start z)) (bytes (zbuf z)) @ data \<and> length data = n"
proof -
  let ?d = "nat (int (len (zbuf z)) - start z)"
  let ?left = "drop (nat (start z)) (bytes (zbuf z))"
  let ?a1 = "?left @ drop ?d (arr nb)"
  obtain data e rd' where R: "Read (rdr z) (cap nb - ?d) = (data, e, rd')"
    by (cases "Read (rdr z) (cap nb - ?d)") auto
  from Read_props[OF R] have dl: "length data \<le> cap nb - ?d"
    and dc: "data @ content rd' = content (rdr z)" by auto
  have "length (bytes (zbuf z)) = len (zbuf z)" using st(3) by (simp add: bytes_def cap_def)
  then have ll: "length ?left = ?d" using st(1,2) by simp
  have dcap: "?d \<le> cap nb" using d st by simp
  have la1: "length ?a1 = cap nb" using ll dcap by (simp add: cap_def)
  let ?Z = "z\<lparr>rdr := rd', err := e, zpool := pool',
            zpos := zpos z - start z, start := 0,
            zbuf := \<lparr>arr = take ?d ?a1 @ data @ drop (?d + length data) ?a1,
                     len = ?d + length data\<rparr>\<rparr>"
  from rf have "(?Z, length data) = (z1, n)"
    unfolding refill_def Let_def R prod.case .
  then have z1: "z1 = ?Z" and n: "n = length data"
    by blast+
  show "start z1 = 0" "zpos z1 = zpos z - start z" "zpool z1 = pool'"
    "prevStart z1 = prevStart z" by (simp_all add: z1)
  show "int (len (zbuf z1)) = int (len (zbuf z)) - start z + int n"
    using st by (simp add: z1 n)
  have t: "take ?d ?a1 = ?left" using ll by simp
  show c: "cap (zbuf z1) = cap nb"
    using la1 dl dcap ll by (simp add: z1 cap_def)
  show "len (zbuf z1) \<le> cap (zbuf z1)"
    unfolding c using dl dcap by (simp add: z1)
  have b: "bytes (zbuf z1) = ?left @ data"
    using ll by (simp add: z1 bytes_def)
  show "pending z1 = pending z"
    using dc by (simp add: pending_def b) (simp add: z1)
  show "\<exists>data. bytes (zbuf z1) = drop (nat (start z)) (bytes (zbuf z)) @ data \<and> length data = n"
    using b n by blast
qed

lemma read_err: "err z \<noteq> None \<Longrightarrow> read z p0 = Inr (z, 0)"
  by (simp add: read_def)

lemma read_Inr:
  assumes r: "read z p0 = Inr (z', c)" and e: "err z = None"
  shows "\<exists>pool' nb z1 n. swap (zpool z) ((zbuf z)\<lparr>len := nat (start z)\<rparr>) (read_size z p0) = Inr (pool', nb) \<and>
           refill z pool' nb = (z1, n) \<and>
           0 \<le> start z \<and> start z \<le> int (cap (zbuf z)) \<and>
           start z \<le> int (len (zbuf z)) \<and> int (len (zbuf z)) - start z \<le> int (cap nb) \<and>
           (n = 0 \<and> c = 0 \<and> z' = z1\<lparr>err := (if err z1 = None then Some EOF else err z1)\<rparr> \<or>
            n \<noteq> 0 \<and> z' = z1 \<and> c = arr (zbuf z1) ! nat (p0 - start z) \<and> 0 \<le> p0 - start z \<and>
              p0 - start z < int (len (zbuf z1)))"
  using r e
  by (auto simp: read_def split: if_splits sum.splits prod.splits)

lemma lexer_inv_err_upd [simp]: "lexer_inv (z\<lparr>err := x\<rparr>) = lexer_inv z"
  by (simp add: lexer_inv_def)

lemma pending_err_upd [simp]: "pending (z\<lparr>err := x\<rparr>) = pending z"
  by (simp add: pending_def)

lemma read_keeps:
  assumes r: "read z p0 = Inr (z', c)" and inv: "lexer_inv z"
  shows "lexer_inv z'" "pending z' = pending z" "prevStart z' = prevStart z"
    "zpos z' - start z' = zpos z - start z"
proof -
  have "lexer_inv z' \<and> pending z' = pending z \<and> prevStart z' = prevStart z \<and>
        zpos z' - start z' = zpos z - start z"
  proof (cases "err z = None")
    case False
    with r inv show ?thesis by (simp add: read_err)
  next
    case True
    from read_Inr[OF r True] obtain pool' nb z1 n where
      rf: "refill z pool' nb = (z1, n)"
      and d: "int (len (zbuf z)) - start z \<le> int (cap nb)"
      and z': "z' = z1\<lparr>err := (if err z1 = None then Some EOF else err z1)\<rparr> \<or> z' = z1"
      by blast
    from inv have st: "0 \<le> start z" "start z \<le> int (len (zbuf z))" "len (zbuf z) \<le> cap (zbuf z)"
      and p: "start z \<le> zpos z" "zpos z \<le> int (len (zbuf z))"
      by (auto simp: lexer_inv_def)
    note P = refill_props[OF rf st d]
    have "lexer_inv z1" using P(1,2,5,7) p by (simp add: lexer_inv_def)
    with z' P(1,2,4,8) show ?thesis by auto
  qed
  then show "lexer_inv z'" "pending z' = pending z" "prevStart z' = prevStart z"
    "zpos z' - start z' = zpos z - start z" by auto
qed

lemma Peek_keeps:
  assumes r: "Peek z n = Inr (z', c)" and inv: "lexer_inv z"
  shows "lexer_inv z'" "pending z' = pending z" "prevStart z' = prevStart z"
    "zpos z' - start z' = zpos z - start z"
  using r inv read_keeps[of z "n + zpos z" z' c]
  by (auto simp: Peek_def Let_def split: if_splits)

lemma PeekRune_keeps:
  assumes r: "PeekRune z n = Inr (z', rn, l)" and inv: "lexer_inv z"
  shows "lexer_inv z' \<and> pending z' = pending z \<and> prevStart z' = prevStart z \<and>
    zpos z' - start z' = zpos z - start z"
proof -
  let ?K = "\<lambda>a b. lexer_inv b \<and> pending b = pending a \<and> prevStart b = prevStart a \<and>
    zpos b - start b = zpos a - start a"
  have step: "\<And>a b k c. Peek a k = Inr (b, c) \<Longrightarrow> lexer_inv a \<Longrightarrow> ?K a b"
    using Peek_keeps by blast
  from r obtain z1 c where p1: "Peek z n = Inr (z1, c)"
    by (auto simp: PeekRune_def split: sum.splits)
  note k1 = step[OF p1 inv]
  show ?thesis
  proof (cases "c < 0xC0")
    case True
    with r p1 k1 show ?thesis by (simp add: PeekRune_def)
  next
    case c1: False
    with r p1 obtain z2 c1 where p2: "Peek z1 (n + 1) = Inr (z2, c1)"
      by (auto simp: PeekRune_def split: sum.splits if_splits)
    from step[OF p2] k1 have k2: "?K z z2" by simp
    show ?thesis
    proof (cases "c < 0xE0")
      case True
      with r p1 p2 c1 k2 show ?thesis by (simp add: PeekRune_def)
    next
      case c2: False
      with r p1 p2 c1 obtain z3 c2 where p3: "Peek z2 (n + 2) = Inr (z3, c2)"
        by (auto simp: PeekRune_def split: sum.splits if_splits)
      from step[OF p3] k2 have k3: "?K z z3" by simp
      show ?thesis
      proof (cases "c < 0xF0")
        case True
        with r p1 p2 p3 c1 c2 k3 show ?thesis by (simp add: PeekRune_def)
      next
        case c3: False
        with r p1 p2 p3 c1 c2 obtain z4 c3 where p4: "Peek z3 (n + 3) = Inr (z4, c3)"
          by (auto simp: PeekRune_def split: sum.splits if_splits)
        from step[OF p4] k3 have k4: "?K z z4" by simp
        with r p1 p2 p3 p4 c1 c2 c3 show ?thesis by (simp add: PeekRune_def)
      qed
    qed
  qed
qed

lemma byte_order:
  fixes c :: byte
  shows "c < 0xC0 \<Longrightarrow> c < 0xE0" "c < 0xE0 \<Longrightarrow> c < 0xF0" "c < 0xC0 \<Longrightarrow> c < 0xF0"
  by (simp_all add: word_less_nat_alt)

lemma Lexeme_inv:
  assumes "lexer_inv z"
  shows "Lexeme z = Inr (take (nat (zpos z - start z)) (drop (nat (start z)) (bytes (zbuf z))))"
proof -
  from assms have st: "0 \<le> start z" "start z \<le> zpos z" "zpos z \<le> int (len (zbuf z))"
    "len (zbuf z) \<le> cap (zbuf z)" by (auto simp: lexer_inv_def)
  then have "nat (zpos z - start z) + nat (start z) \<le> len (zbuf z)" by simp
  then have "take (nat (zpos z - start z)) (drop (nat (start z)) (take (len (zbuf z)) (arr (zbuf z))))
      = take (nat (zpos z - start z)) (drop (nat (start z)) (arr (zbuf z)))"
    by (simp add: drop_take)
  with st show ?thesis by (simp add: Lexeme_def bytes_def)
qed

lemma pending_split:
  assumes "lexer_inv z"
  shows "pending z = take (nat (zpos z - start z)) (drop (nat (start z)) (bytes (zbuf z))) @
           pending (z\<lparr>start := zpos z\<rparr>)"
proof -
  from assms have st: "0 \<le> start z" "start z \<le> zpos z" by (auto simp: lexer_inv_def)
  let ?b = "bytes (zbuf z)"
  let ?k = "nat (zpos z - start z)"
  have n: "?k + nat (start z) = nat (zpos z)" using st by simp
  have "drop ?k (drop (nat (start z)) ?b) = drop (nat (zpos z)) ?b"
    by (simp only: drop_drop n)
  then have "take ?k (drop (nat (start z)) ?b) @ drop (nat (zpos z)) ?b = drop (nat (start z)) ?b"
    by (metis append_take_drop_id)
  then have "pending z = (take ?k (drop (nat (start z)) ?b) @ drop (nat (zpos z)) ?b) @ content (rdr z)"
    by (simp only: pending_def)
  also have "\<dots> = take ?k (drop (nat (start z)) ?b) @ pending (z\<lparr>start := zpos z\<rparr>)"
    by (simp add: pending_def)
  finally show ?thesis .
qed

lemma committed_Cons:
  "lex_step z x = Inr (z', y) \<Longrightarrow> committed z (x # xs) = piece z x y @ committed z' xs"
  by (simp add: piece_def)

lemma lex_step_keeps:
  assumes s: "lex_step z x = Inr (z', y)" and inv: "lexer_inv z"
    and w: "start z' \<le> zpos z'" "zpos z' \<le> int (len (zbuf z'))"
  shows "lexer_inv z' \<and> pending z = piece z x y @ pending z'"
proof (cases x)
  case (OpPeek n)
  with s obtain c where "Peek z n = Inr (z', c)" "y = OByte c" by (auto split: sum.splits)
  with Peek_keeps[OF this(1) inv] OpPeek show ?thesis by (simp add: piece_def)
next
  case (OpPeekRune n)
  with s obtain rn l where "PeekRune z n = Inr (z', rn, l)" "y = ORune rn l"
    by (auto split: sum.splits)
  with PeekRune_keeps[OF this(1) inv] OpPeekRune show ?thesis by (simp add: piece_def)
next
  case (OpMove n)
  with s inv w show ?thesis by (auto simp: Move_def lexer_inv_def pending_def piece_def)
next
  case OpPos
  with s inv show ?thesis by (auto simp: piece_def)
next
  case (OpRewind p)
  with s inv w show ?thesis by (auto simp: Rewind_def lexer_inv_def pending_def piece_def)
next
  case OpLexeme
  with s inv show ?thesis by (auto simp: piece_def split: sum.splits)
next
  case OpShift
  with s Lexeme_inv[OF inv] have z': "z' = z\<lparr>start := zpos z\<rparr>"
    and y: "y = OBytes (take (nat (zpos z - start z)) (drop (nat (start z)) (bytes (zbuf z))))"
    by (auto simp: Shift_def)
  have "lexer_inv z'" using inv by (simp add: z' lexer_inv_def)
  with pending_split[OF inv] OpShift y z' show ?thesis by (simp add: piece_def)
next
  case OpShiftLen
  with s inv show ?thesis by (auto simp: ShiftLen_def lexer_inv_def pending_def piece_def)
next
  case OpSkip
  with s have z': "z' = z\<lparr>start := zpos z\<rparr>" by (simp add: Skip_def)
  have "lexer_inv z'" using inv by (simp add: z' lexer_inv_def)
  with pending_split[OF inv] OpSkip z' Lexeme_inv[OF inv] show ?thesis by (simp add: piece_def)
next
  case OpErr
  with s inv show ?thesis by (auto simp: piece_def)
next
  case (OpFree n)
  with s inv show ?thesis
    by (auto simp: lexer_inv_def pending_def piece_def split: option.splits sum.splits)
qed

lemma lex_run_keeps:
  "lexer_inv z \<Longrightarrow> in_window z xs \<Longrightarrow>
     \<exists>z' ys. lex_run z xs = Inr (z', ys) \<and> lexer_inv z' \<and> pending z = committed z xs @ pending z'"
proof (induction xs arbitrary: z)
  case Nil
  then show ?case by simp
next
  case (Cons x xs)
  from Cons.prems(2) obtain z1 y where s: "lex_step z x = Inr (z1, y)"
    and w: "start z1 \<le> zpos z1" "zpos z1 \<le> int (len (zbuf z1))" and r: "in_window z1 xs"
    by (auto split: sum.splits)
  from lex_step_keeps[OF s Cons.prems(1) w] have i1: "lexer_inv z1"
    and p1: "pending z = piece z x y @ pending z1" by auto
  from Cons.IH[OF i1 r] obtain z' ys where r1: "lex_run z1 xs = Inr (z', ys)"
    and i': "lexer_inv z'" and p': "pending z1 = committed z1 xs @ pending z'" by blast
  have c: "committed z (x # xs) = piece z x y @ committed z1 xs" by (rule committed_Cons[OF s])
  have lr: "lex_run z (x # xs) = Inr (z', y # ys)" using s r1 by simp
  show ?case unfolding c lr using i' p1 p' by simp
qed

lemma shifted_committed:
  "\<not> has_skip xs \<Longrightarrow> shifted z xs = committed z xs"
proof (induction xs arbitrary: z)
  case Nil
  then show ?case by simp
next
  case (Cons x xs)
  then have "x \<noteq> OpSkip" "\<not> has_skip xs" by auto
  with Cons.IH show ?case
    by (cases x) (auto split: sum.splits out.splits)
qed

lemma NewLexerSize_inv:
  assumes "NewLexerSize src sz = Inr z"
  shows "lexer_inv z \<and> pending z = stream src"
proof (cases src)
  case (InMemory bs spare)
  with assms show ?thesis
    by (auto simp: mem_lexer_def lexer_inv_def pending_def bytes_def cap_def content_def)
next
  case (Stream rd)
  let ?z0 = "\<lparr>rdr = rd, err = None, zpool = new_pool, zbuf = make_bytes sz,
                   start = 0, zpos = 0, prevStart = 0\<rparr>"
  from assms Stream obtain c where p: "Peek ?z0 0 = Inr (z, c)"
    by (auto split: if_splits sum.splits)
  have i: "lexer_inv ?z0" by (simp add: lexer_inv_def make_bytes_def)
  have "pending ?z0 = content rd" by (simp add: pending_def make_bytes_def bytes_def)
  with Peek_keeps(1,2)[OF p i] Stream show ?thesis by simp
qed

lemma Peek_buffered:
  "0 \<le> zpos z + n \<Longrightarrow> zpos z + n < int (len (zbuf z)) \<Longrightarrow>
     Peek z n = Inr (z, arr (zbuf z) ! nat (zpos z + n))"
  by (simp add: Peek_def Let_def add.commute)

lemma Peek_after_error:
  "err z \<noteq> None \<Longrightarrow> int (len (zbuf z)) \<le> zpos z + n \<Longrightarrow> Peek z n = Inr (z, 0)"
  by (simp add: Peek_def Let_def read_err add.commute)

subsection \<open>Peek after a short read\<close>

text \<open>
  Claim C1 says that \<open>Peek(n)\<close> never fails and yields 0 when the byte at cursor + n is not
  available, also when the single \<open>Read\<close> of a refill returns fewer bytes than needed. The
  code does not: over a reader that delivers \<open>"ab"\<close> and then \<open>"c"\<close>, with buffer size 8,
  the lexer holds \<open>"ab"\<close> after construction; \<open>Peek(2)\<close> refills and yields \<open>'c'\<close>, but
  \<open>Peek(3)\<close> on the same state refills one byte, \<open>n = 1\<close> is not 0, and the last line of
  \<open>read\<close> indexes \<open>z.buf[3]\<close> in a buffer of length 3: an index-out-of-range panic.
\<close>

theorem Peek_short_read_panics:
  "NewLexerSize (Stream [([0x61, 0x62], None), ([0x63], None)]) 8 = Inr short_lexer \<and>
   Peek short_lexer 2 = Inr (short_lexer\<lparr>rdr := [], zbuf := \<lparr>arr = [0x61, 0x62, 0x63, 0, 0, 0, 0, 0], len = 3\<rparr>\<rparr>, 0x63) \<and>
   Peek short_lexer 3 = Inl IndexOutOfRange"
  by code_simp

subsection \<open>Err\<close>

text \<open>
  Claim C2, as stated, fails for an error other than \<open>io.EOF\<close>: over a reader that delivers
  \<open>"a"\<close> together with such an error, the cursor is before the one buffered byte and
  \<open>Err()\<close> returns the error, not \<open>nil\<close>.
\<close>

theorem Err_other_error_counterexample:
  "NewLexerSize (Stream [([0x61], Some (SourceError 1))]) 4 = Inr err_lexer \<and>
   zpos err_lexer < int (len (zbuf err_lexer)) \<and>
   Err err_lexer = Some (SourceError 1)"
  by code_simp

text \<open>
  Claim C2, amended. When the recorded error is \<open>io.EOF\<close> and the cursor is before the end
  of the buffered bytes, \<open>Err()\<close> returns \<open>nil\<close>; when the cursor is at or beyond the end
  of the buffered bytes, \<open>Err()\<close> returns the recorded error; and a recorded error other than
  \<open>io.EOF\<close> (or no error) is returned as it is, wherever the cursor is.
\<close>

theorem Err_suppression:
  "(err z = Some EOF \<and> zpos z < int (len (zbuf z)) \<longrightarrow> Err z = None) \<and>
   (int (len (zbuf z)) \<le> zpos z \<longrightarrow> Err z = err z) \<and>
   (err z \<noteq> Some EOF \<longrightarrow> Err z = err z)"
  by (simp add: Err_def)

theorem Err_suppression_witness:
  "Err (mem_lexer [0x61] 0) = None \<and> Err (Move (mem_lexer [0x61] 0) 1) = Some EOF \<and>
   Err err_lexer = Some (SourceError 1)"
  using Err_suppression[of "mem_lexer [0x61] 0"] Err_suppression[of "Move (mem_lexer [0x61] 0) 1"]
    Err_suppression[of err_lexer]
  by (simp add: mem_lexer_def Move_def err_lexer_def)

subsection \<open>ShiftLen across a refill\<close>

text \<open>
  Claim C5 says that \<open>ShiftLen()\<close> returns the number of bytes committed since the previous
  call of \<open>ShiftLen()\<close>, also across a refill. The code does not: \<open>read\<close> sets \<open>start\<close> to
  0 and leaves \<open>prevStart\<close>. Over a reader that delivers \<open>"abcd"\<close> and then \<open>"ef"\<close>, with
  buffer size 4: after \<open>Move(2); Shift(); Peek(2)\<close> (a refill), \<open>ShiftLen()\<close> returns 0
  although 2 bytes were committed; and after \<open>Move(2); Shift(); ShiftLen(); Move(1); Shift();
  Peek(1)\<close> (a refill), \<open>ShiftLen()\<close> returns -2 although 1 byte was committed since the
  previous call.
\<close>

theorem ShiftLen_after_refill:
  "NewLexerSize (Stream [([0x61, 0x62, 0x63, 0x64], None), ([0x65, 0x66], None)]) 4 = Inr abcd_lexer \<and>
   lex_outs abcd_lexer [OpMove 2, OpShift, OpPeek 2, OpShiftLen] =
     Inr [ONone, OBytes [0x61, 0x62], OByte 0x65, OInt 0] \<and>
   lex_outs abcd_lexer [OpMove 2, OpShift, OpShiftLen, OpMove 1, OpShift, OpPeek 1, OpShiftLen] =
     Inr [ONone, OBytes [0x61, 0x62], OInt 2, ONone, OBytes [0x63], OByte 0x65, OInt (- 2)]"
  by code_simp

subsection \<open>PeekRune\<close>

text \<open>
  Claim C4, as stated, fails for the leading bytes 0x80 to 0xBF: on the bytes \<open>0x80 0xBF\<close>,
  \<open>PeekRune(0)\<close> returns the rune 0x80 with length 1, not length 2.
\<close>

theorem PeekRune_continuation_counterexample:
  "PeekRune (mem_lexer [0x80, 0xBF] 0) 0 = Inr (mem_lexer [0x80, 0xBF] 0, 0x80, 1)"
  by code_simp

text \<open>
  Claim C4, amended. Let \<open>c\<close> be the byte that \<open>Peek(n)\<close> returns. When \<open>c < 0xC0\<close>,
  \<open>PeekRune(n)\<close> returns the rune \<open>c\<close> and length 1. When \<open>0xC0 \<le> c < 0xE0\<close> it returns
  length 2, when \<open>0xE0 \<le> c < 0xF0\<close> length 3, and when \<open>0xF0 \<le> c\<close> length 4, provided the
  calls \<open>Peek(n+1)\<close> ... for the continuation bytes return; the rune is made of the low 5, 4
  or 3 bits of \<open>c\<close> and of the continuation bytes masked with 0x3F, six bits each.
\<close>

theorem PeekRune_rule:
  assumes "Peek z n = Inr (z1, c)"
  shows "(c < 0xC0 \<longrightarrow> PeekRune z n = Inr (z1, ucast c, 1)) \<and>
    (0xC0 \<le> c \<and> c < 0xE0 \<longrightarrow>
       (\<forall>z2 c1. Peek z1 (n + 1) = Inr (z2, c1) \<longrightarrow>
          PeekRune z n = Inr (z2, push_bit 6 (ucast (c AND 0x1F)) OR ucast (c1 AND 0x3F), 2))) \<and>
    (0xE0 \<le> c \<and> c < 0xF0 \<longrightarrow>
       (\<forall>z2 c1 z3 c2. Peek z1 (n + 1) = Inr (z2, c1) \<and> Peek z2 (n + 2) = Inr (z3, c2) \<longrightarrow>
          PeekRune z n = Inr (z3, push_bit 12 (ucast (c AND 0x0F)) OR
                                   push_bit 6 (ucast (c1 AND 0x3F)) OR ucast (c2 AND 0x3F), 3))) \<and>
    (0xF0 \<le> c \<longrightarrow>
       (\<forall>z2 c1 z3 c2 z4 c3. Peek z1 (n + 1) = Inr (z2, c1) \<and> Peek z2 (n + 2) = Inr (z3, c2) \<and>
            Peek z3 (n + 3) = Inr (z4, c3) \<longrightarrow>
          PeekRune z n = Inr (z4, push_bit 18 (ucast (c AND 0x07)) OR
                                   push_bit 12 (ucast (c1 AND 0x3F)) OR
                                   push_bit 6 (ucast (c2 AND 0x3F)) OR ucast (c3 AND 0x3F), 4)))"
proof -
  have le: "\<And>a b :: byte. (a \<le> b) = (\<not> b < a)" by auto
  have n1: "\<not> c < 0xE0 \<Longrightarrow> \<not> c < 0xC0" and n2: "\<not> c < 0xF0 \<Longrightarrow> \<not> c < 0xE0"
    and n3: "\<not> c < 0xF0 \<Longrightarrow> \<not> c < 0xC0"
    using byte_order[of c] by blast+
  show ?thesis
    unfolding le using assms n1 n2 n3 by (simp add: PeekRune_def)
qed

theorem PeekRune_rule_witness:
  "PeekRune (mem_lexer [0xE2, 0x82, 0xAC] 0) 0 = Inr (mem_lexer [0xE2, 0x82, 0xAC] 0, 0x20AC, 3) \<and>
   PeekRune (mem_lexer [0xBF] 0) 0 = Inr (mem_lexer [0xBF] 0, 0xBF, 1)"
proof -
  let ?z = "mem_lexer [0xE2, 0x82, 0xAC] 0"
  have pk: "Peek ?z 0 = Inr (?z, 0xE2)" "Peek ?z (0 + 1) = Inr (?z, 0x82)"
    "Peek ?z (0 + 2) = Inr (?z, 0xAC)"
    by code_simp+
  have "PeekRune ?z 0 = Inr (?z, 0x20AC, 3)"
    using PeekRune_rule[OF pk(1)] pk(2,3) by simp
  moreover have "Peek (mem_lexer [0xBF] 0) 0 = Inr (mem_lexer [0xBF] 0, 0xBF)" by code_simp
  from PeekRune_rule[OF this] have "PeekRune (mem_lexer [0xBF] 0) 0 = Inr (mem_lexer [0xBF] 0, 0xBF, 1)"
    by simp
  ultimately show ?thesis by simp
qed

subsection \<open>The invariant of the lexer\<close>

text \<open>
  Claim C6, as stated, fails for \<open>Move\<close> and \<open>Rewind\<close>: on the lexer over the one byte
  \<open>"a"\<close>, which satisfies the invariant, \<open>Move(-1)\<close> puts the cursor before the token
  start, \<open>Move(2)\<close> puts it beyond the buffered bytes, and so does \<open>Rewind(-1)\<close> with the
  token start.
\<close>

theorem Move_breaks_inv_counterexample:
  "lexer_inv (mem_lexer [0x61] 0) \<and> \<not> lexer_inv (Move (mem_lexer [0x61] 0) (- 1)) \<and>
   \<not> lexer_inv (Move (mem_lexer [0x61] 0) 2) \<and> \<not> lexer_inv (Rewind (mem_lexer [0x61] 0) (- 1))"
  by (simp add: lexer_inv_def mem_lexer_def Move_def Rewind_def cap_def)

text \<open>
  Claim C6, amended. From a state with \<open>0 \<le> start \<le> pos \<le> len(buf) \<le> cap(buf)\<close>:
  \<open>Peek\<close> and \<open>PeekRune\<close>, when they return, \<open>Shift\<close> (which returns), \<open>ShiftLen\<close> and
  \<open>Skip\<close> lead to a state with the same property, and \<open>Lexeme\<close> returns (\<open>Pos\<close>,
  \<open>Lexeme\<close> and \<open>Err\<close> change no field); \<open>Move(m)\<close> leads to such a state exactly when
  \<open>start \<le> pos + m \<le> len(buf)\<close>, and \<open>Rewind(p)\<close> exactly when \<open>0 \<le> p\<close> and
  \<open>start + p \<le> len(buf)\<close>.
\<close>

theorem lexer_inv_kept:
  assumes "lexer_inv z"
  shows "(\<forall>z' c. Peek z n = Inr (z', c) \<longrightarrow> lexer_inv z') \<and>
         (\<forall>z' rn l. PeekRune z n = Inr (z', rn, l) \<longrightarrow> lexer_inv z') \<and>
         (\<exists>b. Lexeme z = Inr b) \<and>
         (\<exists>z' b. Shift z = Inr (z', b) \<and> lexer_inv z') \<and>
         lexer_inv (fst (ShiftLen z)) \<and> lexer_inv (Skip z) \<and>
         (lexer_inv (Move z m) \<longleftrightarrow> start z \<le> zpos z + m \<and> zpos z + m \<le> int (len (zbuf z))) \<and>
         (lexer_inv (Rewind z p) \<longleftrightarrow> 0 \<le> p \<and> start z + p \<le> int (len (zbuf z)))"
proof -
  have a: "\<forall>z' c. Peek z n = Inr (z', c) \<longrightarrow> lexer_inv z'"
    using Peek_keeps(1)[OF _ assms] by blast
  have b: "\<forall>z' rn l. PeekRune z n = Inr (z', rn, l) \<longrightarrow> lexer_inv z'"
    using PeekRune_keeps[OF _ assms] by blast
  have c: "\<exists>b. Lexeme z = Inr b" using Lexeme_inv[OF assms] by blast
  have d: "\<exists>z' b. Shift z = Inr (z', b) \<and> lexer_inv z'"
    using Lexeme_inv[OF assms] assms by (simp add: Shift_def lexer_inv_def)
  have e: "lexer_inv (fst (ShiftLen z))" "lexer_inv (Skip z)"
    using assms by (simp_all add: ShiftLen_def Skip_def lexer_inv_def)
  have f: "lexer_inv (Move z m) \<longleftrightarrow> start z \<le> zpos z + m \<and> zpos z + m \<le> int (len (zbuf z))"
    "lexer_inv (Rewind z p) \<longleftrightarrow> 0 \<le> p \<and> start z + p \<le> int (len (zbuf z))"
    using assms by (auto simp: Move_def Rewind_def lexer_inv_def)
  from a b c d e f show ?thesis by blast
qed

theorem lexer_inv_kept_witness:
  "lexer_inv abcd_lexer \<and> lexer_inv (Move abcd_lexer 4) \<and> \<not> lexer_inv (Move abcd_lexer 5) \<and>
   lexer_inv (Rewind (Move abcd_lexer 4) 1) \<and> lexer_inv (Skip (Move abcd_lexer 2)) \<and>
   (\<exists>z' c. Peek (Move abcd_lexer 4) 0 = Inr (z', c) \<and> lexer_inv z')"
proof -
  have i: "lexer_inv abcd_lexer" by (simp add: lexer_inv_def abcd_lexer_def cap_def)
  have m: "lexer_inv (Move abcd_lexer 4)" "\<not> lexer_inv (Move abcd_lexer 5)"
    using lexer_inv_kept[OF i, of _ 4] lexer_inv_kept[OF i, of _ 5]
    by (simp_all add: abcd_lexer_def)
  have m2: "lexer_inv (Move abcd_lexer 2)"
    using lexer_inv_kept[OF i, of _ 2] by (simp add: abcd_lexer_def)
  have r: "lexer_inv (Rewind (Move abcd_lexer 4) 1)"
    using lexer_inv_kept[OF m(1), of _ _ 1] by (simp add: abcd_lexer_def Move_def)
  have s: "lexer_inv (Skip (Move abcd_lexer 2))" using lexer_inv_kept[OF m2] by blast
  obtain z' c where p: "Peek (Move abcd_lexer 4) 0 = Inr (z', c)"
    by (cases "Peek (Move abcd_lexer 4) 0") (code_simp, auto)
  with lexer_inv_kept[OF m(1), of 0] have "lexer_inv z'" by blast
  with i m r s p show ?thesis by blast
qed

subsection \<open>The committed bytes of a run\<close>

text \<open>
  Claim C3, as stated, fails when \<open>Skip\<close> drops bytes: over a reader that delivers
  \<open>"ab"\<close>, after \<open>Move(1); Skip(); Move(1); Shift()\<close> the cursor is at offset 2 of the
  stream, whose content up to there is \<open>"ab"\<close>, and the \<open>Shift\<close> results concatenate to
  \<open>"b"\<close>.
\<close>

theorem Skip_leaves_gap_counterexample:
  "NewLexerSize (Stream [([0x61, 0x62], None)]) 4 = Inr ab_lexer \<and>
   lex_run ab_lexer [OpMove 1, OpSkip, OpMove 1, OpShift] =
     Inr (ab_lexer\<lparr>start := 2, zpos := 2\<rparr>, [ONone, ONone, ONone, OBytes [0x62]]) \<and>
   shifted ab_lexer [OpMove 1, OpSkip, OpMove 1, OpShift] = [0x62] \<and>
   take 2 (stream (Stream [([0x61, 0x62], None)])) = [0x61, 0x62]"
  by code_simp

text \<open>
  Claim C3, amended. Take a lexer built by \<open>NewLexerSize\<close> and a run of its operations
  (\<open>Free\<close> included) in which every call returns and leaves the cursor between the token
  start and the end of the buffered bytes. Then the run returns, and the \<open>Shift\<close> results
  and the bytes dropped by \<open>Skip\<close>, concatenated in call order and followed by the current
  lexeme, are the source's content up to the current cursor, with no gap and no duplicate,
  across every refill. In a run without \<open>Skip\<close> these are the \<open>Shift\<close> results alone,
  followed by the current lexeme.
\<close>

theorem committed_prefix:
  assumes "NewLexerSize src sz = Inr z0" and "in_window z0 xs"
  shows "\<exists>z ys b. lex_run z0 xs = Inr (z, ys) \<and> Lexeme z = Inr b \<and>
           committed z0 xs @ b = take (length (committed z0 xs) + length b) (stream src) \<and>
           (\<not> has_skip xs \<longrightarrow> shifted z0 xs = committed z0 xs)"
proof -
  from NewLexerSize_inv[OF assms(1)] have i: "lexer_inv z0" and p: "pending z0 = stream src"
    by auto
  from lex_run_keeps[OF i assms(2)] obtain z ys where r: "lex_run z0 xs = Inr (z, ys)"
    and iz: "lexer_inv z" and pz: "pending z0 = committed z0 xs @ pending z" by blast
  let ?b = "take (nat (zpos z - start z)) (drop (nat (start z)) (bytes (zbuf z)))"
  have l: "Lexeme z = Inr ?b" by (rule Lexeme_inv[OF iz])
  have "stream src = (committed z0 xs @ ?b) @ pending (z\<lparr>start := zpos z\<rparr>)"
    using p pz pending_split[OF iz] by simp
  then have "take (length (committed z0 xs) + length ?b) (stream src) = committed z0 xs @ ?b"
    by (metis append_eq_conv_conj length_append)
  with r l shifted_committed[of xs z0] show ?thesis by auto
qed

theorem committed_prefix_witness:
  "\<exists>z ys b. lex_run abc_lexer [OpPeek 3, OpMove 2, OpShift, OpFree 2, OpMove 3, OpPeek 1, OpMove 1, OpShift, OpPeek 0] = Inr (z, ys) \<and>
      Lexeme z = Inr b \<and>
      shifted abc_lexer [OpPeek 3, OpMove 2, OpShift, OpFree 2, OpMove 3, OpPeek 1, OpMove 1, OpShift, OpPeek 0] @ b =
        [0x61, 0x62, 0x63, 0x58, 0x59, 0x5A]"
proof -
  let ?src = "Stream [([0x61, 0x62, 0x63], None), ([0x58, 0x59, 0x5A], None)]"
  let ?xs = "[OpPeek 3, OpMove 2, OpShift, OpFree 2, OpMove 3, OpPeek 1, OpMove 1, OpShift, OpPeek 0]"
  have n: "NewLexerSize ?src 4 = Inr abc_lexer" by code_simp
  have w: "in_window abc_lexer ?xs" by code_simp
  have c: "committed abc_lexer ?xs = [0x61, 0x62, 0x63, 0x58, 0x59, 0x5A]" by code_simp
  have s: "stream ?src = [0x61, 0x62, 0x63, 0x58, 0x59, 0x5A]" by code_simp
  from committed_prefix[OF n w] obtain z ys b where r: "lex_run abc_lexer ?xs = Inr (z, ys)"
    "Lexeme z = Inr b"
    "committed abc_lexer ?xs @ b = take (length (committed abc_lexer ?xs) + length b) (stream ?src)"
    "shifted abc_lexer ?xs = committed abc_lexer ?xs" by auto
  from r(3) have "length (committed abc_lexer ?xs @ b) \<le> length (stream ?src)"
    by (metis length_take min.cobounded1)
  then have "b = []" unfolding c s by simp
  with r c show ?thesis by auto
qed

end
